theory Spec2Isabelle
  imports Complex_Main
begin

section \<open>Strings as Python handles them\<close>

text \<open>
  Python strings are modelled as \<open>string\<close> restricted to ASCII text: the whitespace
  class is the ASCII part of \<open>str.isspace\<close> (tab, line feed, vertical tab, form feed,
  carriage return, the separators 0x1C to 0x1F, and space), the digit class of the regular
  expression \<open>\d\<close> is \<open>0\<close> to \<open>9\<close>, and \<open>upper\<close>/\<open>lower\<close> map the 26 letters.
\<close>

definition isspace :: "char \<Rightarrow> bool" where
  "isspace c = (c \<in> set [CHR 0x09, CHR 0x0A, CHR 0x0B, CHR 0x0C, CHR 0x0D,
                          CHR 0x1C, CHR 0x1D, CHR 0x1E, CHR 0x1F, CHR 0x20])"

definition isdigit :: "char \<Rightarrow> bool" where
  "isdigit c = (c \<in> set ''0123456789'')"

text \<open>\<open>s.strip()\<close>: leading and trailing whitespace removed.\<close>

definition strip :: "string \<Rightarrow> string" where
  "strip s = rev (dropWhile isspace (rev (dropWhile isspace s)))"

text \<open>
  \<open>s.split()\<close> with no separator: the maximal runs of non-whitespace characters, in
  order. The first argument is the token being read.
\<close>

fun split_from :: "string \<Rightarrow> string \<Rightarrow> string list" where
  "split_from cur [] = (if cur = [] then [] else [cur])"
| "split_from cur (c # cs) =
     (if isspace c then (if cur = [] then split_from [] cs else cur # split_from [] cs)
      else split_from (cur @ [c]) cs)"

definition split :: "string \<Rightarrow> string list" where
  "split s = split_from [] s"

definition lower_char :: "char \<Rightarrow> char" where
  "lower_char c =
     (case map_of (zip ''ABCDEFGHIJKLMNOPQRSTUVWXYZ'' ''abcdefghijklmnopqrstuvwxyz'') c of
        Some l \<Rightarrow> l | None \<Rightarrow> c)"

definition upper_char :: "char \<Rightarrow> char" where
  "upper_char c =
     (case map_of (zip ''abcdefghijklmnopqrstuvwxyz'' ''ABCDEFGHIJKLMNOPQRSTUVWXYZ'') c of
        Some u \<Rightarrow> u | None \<Rightarrow> c)"

definition lower :: "string \<Rightarrow> string" where
  "lower s = map lower_char s"

definition upper :: "string \<Rightarrow> string" where
  "upper s = map upper_char s"

text \<open>\<open>s.startswith(p)\<close>, \<open>s.endswith(p)\<close> and \<open>p in s\<close>.\<close>

fun startswith :: "string \<Rightarrow> string \<Rightarrow> bool" where
  "startswith s [] = True"
| "startswith [] (p # ps) = False"
| "startswith (c # cs) (p # ps) = (c = p \<and> startswith cs ps)"

definition endswith :: "string \<Rightarrow> string \<Rightarrow> bool" where
  "endswith s p = startswith (rev s) (rev p)"

fun contains :: "string \<Rightarrow> string \<Rightarrow> bool" where
  "contains [] p = (p = [])"
| "contains (c # cs) p = (startswith (c # cs) p \<or> contains cs p)"

text \<open>\<open>int(y)\<close> on a string of decimal digits.\<close>

definition digit_val :: "char \<Rightarrow> int" where
  "digit_val c =
     (case map_of (zip ''0123456789'' [0, 1, 2, 3, 4, 5, 6, 7, 8, 9]) c of
        Some d \<Rightarrow> d | None \<Rightarrow> 0)"

definition int_of_digits :: "string \<Rightarrow> int" where
  "int_of_digits s = foldl (\<lambda>n c. 10 * n + digit_val c) 0 s"

text \<open>
  \<open>re.search(r"(\d{4})", s)\<close>: the leftmost four consecutive digits, or no match;
  \<open>re.findall(r"\d{4}", s)\<close>: all such groups, left to right, without overlap.
\<close>

fun re_search_d4 :: "string \<Rightarrow> string option" where
  "re_search_d4 (a # b # c # d # rest) =
     (if isdigit a \<and> isdigit b \<and> isdigit c \<and> isdigit d then Some [a, b, c, d]
      else re_search_d4 (b # c # d # rest))"
| "re_search_d4 _ = None"

fun re_findall_d4 :: "string \<Rightarrow> string list" where
  "re_findall_d4 (a # b # c # d # rest) =
     (if isdigit a \<and> isdigit b \<and> isdigit c \<and> isdigit d
      then [a, b, c, d] # re_findall_d4 rest
      else re_findall_d4 (b # c # d # rest))"
| "re_findall_d4 _ = []"

text \<open>
  The year of a row, as both scripts parse it:
  \<^verbatim>\<open>try: pub_year = int(re.search(r"(\d{4})", year_text).group(1))\<close>
  \<^verbatim>\<open>except Exception: pub_year = None\<close>
\<close>

definition parse_year :: "string \<Rightarrow> int option" where
  "parse_year year_text = map_option int_of_digits (re_search_d4 year_text)"


section \<open>fetch\_ucc\_scholar.py: name variants\<close>

text \<open>
  \<open>build_queries\<close> collects the variants in a Python \<open>set\<close> and, after the preferred
  order, appends whatever the set still holds, in the set's iteration order. That order is
  not determined by the program, so it is the parameter \<open>set_iter\<close>: the set is kept as
  the list of the elements added, and \<open>set_iter\<close> enumerates it.
\<close>

definition name_parts :: "string \<Rightarrow> string list" where
  "name_parts full_name = map strip (filter (\<lambda>p. strip p \<noteq> []) (split full_name))"

text \<open>The two loops that fill \<open>ordered\<close>.\<close>

definition add_preferred :: "string list \<Rightarrow> string list \<Rightarrow> string list" where
  "add_preferred preferred_order ordered =
     foldl (\<lambda>ord v. if v \<noteq> [] \<and> v \<notin> set ord then ord @ [v] else ord) ordered preferred_order"

definition add_variants :: "string list \<Rightarrow> string list \<Rightarrow> string list" where
  "add_variants variants ordered =
     foldl (\<lambda>ord v. if v \<notin> set ord then ord @ [v] else ord) ordered variants"

definition preferred_order :: "string \<Rightarrow> string list" where
  "preferred_order full_name =
     (let parts = name_parts full_name;
          first = hd parts;
          last_name = last parts;
          middles = butlast (tl parts);
          initials_concat = hd first # map hd middles;
          mid_last_concat = map hd middles @ [hd last_name]
      in [strip full_name, [hd first] @ '' '' @ last_name]
         @ map (\<lambda>m. [hd m] @ '' '' @ last_name) middles
         @ (if initials_concat \<noteq> [] then [initials_concat @ '' '' @ last_name] else [])
         @ (if middles \<noteq> [] then [first @ '' '' @ mid_last_concat] else []))"

definition variants :: "string \<Rightarrow> string list" where
  "variants full_name =
     (let parts = name_parts full_name;
          first = hd parts;
          last_name = last parts;
          middles = butlast (tl parts);
          initials_concat = hd first # map hd middles;
          mid_last_concat = map hd middles @ [hd last_name]
      in [strip full_name, [hd first] @ '' '' @ last_name]
         @ map (\<lambda>m. [hd m] @ '' '' @ last_name) middles
         @ (if initials_concat \<noteq> [] then [initials_concat @ '' '' @ last_name] else [])
         @ (if middles \<noteq> [] then [first @ '' '' @ mid_last_concat] else []))"

definition build_queries :: "(string list \<Rightarrow> string list) \<Rightarrow> string \<Rightarrow> string list" where
  "build_queries set_iter full_name =
     (if name_parts full_name = [] then [full_name]
      else add_variants (set_iter (variants full_name))
             (add_preferred (preferred_order full_name) []))"

text \<open>The specification's wording of the result: duplicates removed, first occurrence kept.\<close>

fun dedup_seen :: "'a list \<Rightarrow> 'a list \<Rightarrow> 'a list" where
  "dedup_seen seen [] = []"
| "dedup_seen seen (x # xs) =
     (if x \<in> set seen then dedup_seen seen xs else x # dedup_seen (x # seen) xs)"

definition dedup_first :: "'a list \<Rightarrow> 'a list" where
  "dedup_first xs = dedup_seen [] xs"


section \<open>fetch\_ucc\_scholar.py: the table scraper\<close>

text \<open>
  The browser is the environment. After a search the page shows a view: whether any row
  appears within the timeout, and the successive states of the table that the scroll loop
  reads, one per iteration, each with the outcome of the scroll that follows it. The script
  is finite and the table then stays as it is: a further read finds the count unchanged, the
  range of new indices empty, and the loop ends at \<open>count == last_count\<close>.
\<close>

record dom_row =
  authors_cell :: string
  title_text :: string
  title_href :: "string option"
  year_cell :: string

record snapshot =
  rendered :: "dom_row list"
  scroll_ok :: bool

record view =
  rows_appear :: bool
  script :: "snapshot list"

type_synonym page = "string \<Rightarrow> view"

text \<open>A result row: (authors, title, year\_text, link).\<close>

type_synonym scraped = "string \<times> string \<times> string \<times> string"

definition extract_row :: "dom_row \<Rightarrow> scraped" where
  "extract_row row =
     (strip (authors_cell row), strip (title_text row), strip (year_cell row),
      (case title_href row of None \<Rightarrow> [] | Some href \<Rightarrow> href))"

datatype 'a flow = Returned 'a | Completed 'a

text \<open>
  The \<open>for i in range(...)\<close> loop over the indices still to extract: it either returns
  from the function (a year below \<open>year_min\<close>) or runs to its end.
\<close>

fun extract_rows :: "int \<Rightarrow> dom_row list \<Rightarrow> nat list \<Rightarrow> scraped list \<Rightarrow> scraped list flow" where
  "extract_rows year_min rows [] results = Completed results"
| "extract_rows year_min rows (i # idxs) results =
     (case extract_row (rows ! i) of (authors, title, year_text, link) \<Rightarrow>
        (case parse_year year_text of
           Some pub_year \<Rightarrow>
             if pub_year < year_min then Returned results
             else extract_rows year_min rows idxs (results @ [(authors, title, year_text, link)])
         | None \<Rightarrow> extract_rows year_min rows idxs (results @ [(authors, title, year_text, link)])))"

text \<open>
  \<open>range(last_count + 1, min(count, per_name_limit if per_name_limit is not None else inf))\<close>
\<close>

definition row_range :: "int \<Rightarrow> int \<Rightarrow> int option \<Rightarrow> nat list" where
  "row_range last_count count per_name_limit =
     [nat (last_count + 1) ..<
      nat (case per_name_limit of None \<Rightarrow> count | Some l \<Rightarrow> min count l)]"

text \<open>\<open>results[:per_name_limit]\<close> when a limit is given (a negative one counts from the end).\<close>

definition take_limit :: "int option \<Rightarrow> 'a list \<Rightarrow> 'a list" where
  "take_limit per_name_limit results =
     (case per_name_limit of
        None \<Rightarrow> results
      | Some l \<Rightarrow> if 0 \<le> l then take (nat l) results
                  else take (length results - nat (- l)) results)"

fun scroll_loop :: "int \<Rightarrow> int option \<Rightarrow> snapshot list \<Rightarrow> int \<Rightarrow> scraped list \<Rightarrow> scraped list" where
  "scroll_loop year_min per_name_limit [] last_count results = take_limit per_name_limit results"
| "scroll_loop year_min per_name_limit (s # ss) last_count results =
     (let count = int (length (rendered s)) in
      case extract_rows year_min (rendered s) (row_range last_count count per_name_limit) results of
        Returned res \<Rightarrow> res
      | Completed res \<Rightarrow>
          if count = last_count \<or>
             (case per_name_limit of None \<Rightarrow> False | Some l \<Rightarrow> l \<le> int (length res))
          then take_limit per_name_limit res
          else if \<not> scroll_ok s then take_limit per_name_limit res
          else scroll_loop year_min per_name_limit ss count res)"

definition scrape_for_name :: "page \<Rightarrow> string \<Rightarrow> int \<Rightarrow> int \<Rightarrow> int option \<Rightarrow> scraped list" where
  "scrape_for_name page query year_min year_max per_name_limit =
     (if \<not> rows_appear (page query) then []
      else scroll_loop year_min per_name_limit (script (page query)) (- 1) [])"


section \<open>fetch\_ucc\_scholar.py: the collector\<close>

datatype error = FileNotFoundError string | ValueError string | ReadError

datatype csv_file = Missing | Unreadable | Awardees "string list"

datatype browser_event = Launched | Searched string

text \<open>A collected publication: (authors, title, year, link).\<close>

type_synonym pub = "string \<times> string \<times> int \<times> string"

definition list_min :: "int list \<Rightarrow> int" where
  "list_min ys = foldl min (hd ys) (tl ys)"

definition list_max :: "int list \<Rightarrow> int" where
  "list_max ys = foldl max (hd ys) (tl ys)"

text \<open>The year bounds of a period string, or the \<open>ValueError\<close> the script raises.\<close>

definition period_years :: "string \<Rightarrow> error + (int \<times> int)" where
  "period_years period =
     (let years_in_period = map int_of_digits (re_findall_d4 period) in
      if years_in_period = [] then Inl (ValueError period)
      else if length years_in_period = 1 then Inr (hd years_in_period, hd years_in_period)
      else Inr (list_min years_in_period, list_max years_in_period))"

definition keep_row :: "int \<Rightarrow> int \<Rightarrow> scraped \<Rightarrow> pub option" where
  "keep_row year_min year_max r =
     (case r of (authors, title, year_text, link) \<Rightarrow>
        (case parse_year year_text of
           None \<Rightarrow> None
         | Some pub_year \<Rightarrow>
             if year_min \<le> pub_year \<and> pub_year \<le> year_max
             then Some (authors, title, pub_year, link) else None))"

definition awardee_csv :: "string \<Rightarrow> string" where
  "awardee_csv period = ''Data/awardees_by_period/awardees_'' @ period @ ''.csv''"

text \<open>
  \<open>fetch_period\<close>: the result is the exception raised or the rows written to
  \<open>raw_publications.csv\<close>, together with what the browser was asked to do. The awardee
  file is looked up and loaded first, then the period is parsed, then the browser is started.
  Creating the output directory and logging are left out.
\<close>

definition fetch_period ::
  "(string list \<Rightarrow> string list) \<Rightarrow> (string \<Rightarrow> csv_file) \<Rightarrow> page \<Rightarrow> string \<Rightarrow> int
     \<Rightarrow> (error + pub list) \<times> browser_event list" where
  "fetch_period set_iter files page period per_name_limit =
     (case files (awardee_csv period) of
        Missing \<Rightarrow> (Inl (FileNotFoundError (awardee_csv period)), [])
      | Unreadable \<Rightarrow> (Inl ReadError, [])
      | Awardees awardees \<Rightarrow>
          (case period_years period of
             Inl e \<Rightarrow> (Inl e, [])
           | Inr (year_min, year_max) \<Rightarrow>
               (let queries = concat (map (build_queries set_iter) awardees);
                    limit = (if 0 < per_name_limit then Some per_name_limit else None);
                    collected = concat (map (\<lambda>q. List.map_filter (keep_row year_min year_max)
                                  (scrape_for_name page q year_min year_max limit)) queries)
                in (Inr (dedup_first collected), Launched # map Searched queries))))"


section \<open>check\_dric.py: process state and external services\<close>

text \<open>
  The module's globals are the fields of the state. Time is the monotonic clock in
  seconds, as an exact rational; it advances by what \<open>time.sleep\<close> is given and by the
  duration of each service call. The trace records, in order, every request sent to a
  service (with the clock at that moment) and every sleep, tagged by the statement that
  slept: the wait for the minimum interval, or the backoff after a throttling error.
\<close>

datatype event =
    Fc_request string bool rat
  | Groq_request string rat
  | Rate_wait rat
  | Backoff rat

record pstate =
  ARTICLE_CACHE :: "string \<rightharpoonup> string"
  DRIC_CACHE :: "string \<rightharpoonup> string"
  LAST_FIRECRAWL_CALL :: "rat option"
  LAST_GROQ_CALL :: "rat option"
  clock :: rat
  fc_calls :: nat
  groq_calls :: nat
  trace :: "event list"

text \<open>
  What a service call does is not the program's: the n-th call to a service answers after
  some duration with a value or an exception, whose message is the string. Firecrawl
  answers with a dict (its \<open>markdown\<close> and \<open>text\<close> entries) or with another object (its
  \<open>str\<close>); the model answers with a message whose \<open>content\<close> is a string or \<open>None\<close>.
  \<open>sha256_hexdigest\<close> is \<open>hashlib.sha256(text.encode("utf-8")).hexdigest()\<close> and
  \<open>extract_article_url\<close> is the link resolver's result for a Scholar link.
\<close>

datatype fc_result = Fc_dict "string option" "string option" | Fc_other string

datatype 'a reply = Replied 'a | Raised string

record env =
  scrape_url :: "nat \<Rightarrow> string \<Rightarrow> bool \<Rightarrow> rat \<times> fc_result reply"
  llm_invoke :: "nat \<Rightarrow> string \<Rightarrow> rat \<times> string option reply"
  sha256_hexdigest :: "string \<Rightarrow> string"
  extract_article_url :: "string \<Rightarrow> string option"

definition FIRECRAWL_MIN_INTERVAL :: rat where
  "FIRECRAWL_MIN_INTERVAL = 2"

definition GROQ_MIN_INTERVAL :: rat where
  "GROQ_MIN_INTERVAL = 1"

definition PROMPT_TEMPLATE :: "string \<Rightarrow> string" where
  "PROMPT_TEMPLATE text =
     ''Answer YES or NO only. Does the following text acknowledge funding or support from ''
     @ ''the Directorate of Research Innovation and Consultancy (DRIC) of the University of Cape Coast''
     @ ''Look for phrases like '' @ [CHR 0x27] @ ''Directorate of Research Innovation and Consultancy''
     @ [CHR 0x27] @ '', or '' @ [CHR 0x27] @ ''DRIC'' @ [CHR 0x27]
     @ [CHR 0x0A, CHR 0x0A] @ text"

definition initial_state :: pstate where
  "initial_state =
     \<lparr>ARTICLE_CACHE = Map.empty, DRIC_CACHE = Map.empty, LAST_FIRECRAWL_CALL = None,
      LAST_GROQ_CALL = None, clock = 0, fc_calls = 0, groq_calls = 0, trace = []\<rparr>"

definition sleep_rate :: "rat \<Rightarrow> pstate \<Rightarrow> pstate" where
  "sleep_rate d st = st\<lparr>clock := clock st + d, trace := trace st @ [Rate_wait d]\<rparr>"

definition sleep_backoff :: "rat \<Rightarrow> pstate \<Rightarrow> pstate" where
  "sleep_backoff d st = st\<lparr>clock := clock st + d, trace := trace st @ [Backoff d]\<rparr>"

text \<open>\<open>"429" in msg or "rate limit" in msg\<close>, on the lower-cased message.\<close>

definition is_throttle :: "string \<Rightarrow> bool" where
  "is_throttle exc = (let msg = lower exc in contains msg ''429'' \<or> contains msg ''rate limit'')"

definition truthy :: "string option \<Rightarrow> bool" where
  "truthy v = (case v of None \<Rightarrow> False | Some s \<Rightarrow> s \<noteq> [])"

text \<open>\<open>result.get("markdown") or result.get("text") or ""\<close>, or \<open>str(result)\<close>.\<close>

definition fc_text :: "fc_result \<Rightarrow> string" where
  "fc_text result =
     (case result of
        Fc_dict markdown txt \<Rightarrow>
          if truthy markdown then the markdown else if truthy txt then the txt else []
      | Fc_other s \<Rightarrow> s)"


section \<open>check\_dric.py: the content fetcher\<close>

definition firecrawl_wait :: "pstate \<Rightarrow> pstate" where
  "firecrawl_wait st =
     (case LAST_FIRECRAWL_CALL st of
        None \<Rightarrow> st
      | Some t \<Rightarrow>
          (let elapsed = clock st - t in
           if elapsed < FIRECRAWL_MIN_INTERVAL
           then sleep_rate (FIRECRAWL_MIN_INTERVAL - elapsed) st else st))"

definition firecrawl_request :: "env \<Rightarrow> string \<Rightarrow> pstate \<Rightarrow> fc_result reply \<times> pstate" where
  "firecrawl_request e url st =
     (let wait_for = (\<not> endswith (lower url) ''.pdf'');
          r = scrape_url e (fc_calls st) url wait_for
      in (snd r,
          st\<lparr>clock := clock st + fst r, fc_calls := Suc (fc_calls st),
             trace := trace st @ [Fc_request url wait_for (clock st)]\<rparr>))"

text \<open>The statements after the retry loop: \<open>_ARTICLE_CACHE[url] = ""; return ""\<close>.\<close>

definition crawl_failed :: "string \<Rightarrow> pstate \<Rightarrow> string \<times> pstate" where
  "crawl_failed url st = ([], st\<lparr>ARTICLE_CACHE := (ARTICLE_CACHE st)(url \<mapsto> [])\<rparr>)"

text \<open>The retry loop \<open>for attempt in range(1, max_retries + 1)\<close>, over the attempts left.\<close>

fun crawl_attempts :: "env \<Rightarrow> string \<Rightarrow> int list \<Rightarrow> pstate \<Rightarrow> string \<times> pstate" where
  "crawl_attempts e url [] st = crawl_failed url st"
| "crawl_attempts e url (attempt # rest) st =
     (case firecrawl_request e url (firecrawl_wait st) of
        (Replied result, st2) \<Rightarrow>
          (let text = fc_text result
           in (text, st2\<lparr>ARTICLE_CACHE := (ARTICLE_CACHE st2)(url \<mapsto> text)\<rparr>))
      | (Raised exc, st2) \<Rightarrow>
          if is_throttle exc
          then crawl_attempts e url rest
                 (sleep_backoff (FIRECRAWL_MIN_INTERVAL * of_int attempt) st2)
          else crawl_failed url st2)"

definition crawl_article :: "env \<Rightarrow> string \<Rightarrow> int \<Rightarrow> pstate \<Rightarrow> string \<times> pstate" where
  "crawl_article e url max_retries st =
     (case ARTICLE_CACHE st url of
        Some text \<Rightarrow> (text, st)
      | None \<Rightarrow> crawl_attempts e url [1..max_retries] st)"


section \<open>check\_dric.py: the funding classifier\<close>

definition groq_wait :: "pstate \<Rightarrow> pstate" where
  "groq_wait st =
     (case LAST_GROQ_CALL st of
        None \<Rightarrow> st
      | Some t \<Rightarrow>
          (let elapsed = clock st - t in
           if elapsed < GROQ_MIN_INTERVAL
           then sleep_rate (GROQ_MIN_INTERVAL - elapsed) st else st))"

definition groq_request :: "env \<Rightarrow> string \<Rightarrow> pstate \<Rightarrow> string option reply \<times> pstate" where
  "groq_request e text st =
     (let prompt = PROMPT_TEMPLATE text;
          st1 = st\<lparr>LAST_GROQ_CALL := Some (clock st)\<rparr>;
          r = llm_invoke e (groq_calls st1) prompt
      in (snd r,
          st1\<lparr>clock := clock st1 + fst r, groq_calls := Suc (groq_calls st1),
              trace := trace st1 @ [Groq_request prompt (clock st1)]\<rparr>))"

text \<open>
  \<open>answer_raw = (resp_msg.content or "").strip().upper()\<close>
  \<open>answer = "YES" if answer_raw.startswith("YES") else "NO"\<close>
\<close>

definition parse_answer :: "string option \<Rightarrow> string" where
  "parse_answer content =
     (let answer_raw = upper (strip (case content of None \<Rightarrow> [] | Some c \<Rightarrow> c))
      in if startswith answer_raw ''YES'' then ''YES'' else ''NO'')"

definition dric_failed :: "string \<Rightarrow> pstate \<Rightarrow> string \<times> pstate" where
  "dric_failed digest st = (''NO'', st\<lparr>DRIC_CACHE := (DRIC_CACHE st)(digest \<mapsto> ''NO'')\<rparr>)"

fun dric_attempts :: "env \<Rightarrow> string \<Rightarrow> string \<Rightarrow> int list \<Rightarrow> pstate \<Rightarrow> string \<times> pstate" where
  "dric_attempts e text digest [] st = dric_failed digest st"
| "dric_attempts e text digest (attempt # rest) st =
     (case groq_request e text (groq_wait st) of
        (Replied content, st2) \<Rightarrow>
          (let answer = parse_answer content
           in (answer, st2\<lparr>DRIC_CACHE := (DRIC_CACHE st2)(digest \<mapsto> answer)\<rparr>))
      | (Raised exc, st2) \<Rightarrow>
          if is_throttle exc
          then dric_attempts e text digest rest (sleep_backoff (3 / 2 * of_int attempt) st2)
          else dric_failed digest st2)"

definition ask_dric :: "env \<Rightarrow> string \<Rightarrow> int \<Rightarrow> pstate \<Rightarrow> string \<times> pstate" where
  "ask_dric e text max_retries st =
     (if text = [] then (''NO'', st)
      else (let digest = sha256_hexdigest e text in
            case DRIC_CACHE st digest of
              Some answer \<Rightarrow> (answer, st)
            | None \<Rightarrow> dric_attempts e text digest [1..max_retries] st))"


section \<open>check\_dric.py: the row pipeline\<close>

record pub_row =
  authors :: string
  title :: string
  year :: int
  scholar_link :: string

record out_record =
  out_authors :: string
  out_title :: string
  out_year :: int
  out_scholar_link :: string
  dric :: string

definition emit :: "pub_row \<Rightarrow> string \<Rightarrow> out_record" where
  "emit row answer =
     \<lparr>out_authors = authors row, out_title = title row, out_year = year row,
      out_scholar_link = scholar_link row, dric = answer\<rparr>"

text \<open>
  \<open>_process_row\<close>, with the default retry counts of the two wrappers (3 and 4);
  \<open>not article_url\<close> holds for \<open>None\<close> and for the empty string.
\<close>

definition process_row :: "env \<Rightarrow> pub_row \<Rightarrow> pstate \<Rightarrow> out_record \<times> pstate" where
  "process_row e row st =
     (case extract_article_url e (scholar_link row) of
        None \<Rightarrow> (emit row ''NF'', st)
      | Some article_url \<Rightarrow>
          if article_url = [] then (emit row ''NF'', st)
          else (case crawl_article e article_url 3 st of
                  (article_text, st1) \<Rightarrow>
                    if article_text \<noteq> []
                    then (case ask_dric e article_text 4 st1 of
                            (dric_ans, st2) \<Rightarrow> (emit row dric_ans, st2))
                    else (emit row ''NF'', st1)))"

fun process_rows :: "env \<Rightarrow> pub_row list \<Rightarrow> pstate \<Rightarrow> out_record list \<times> pstate" where
  "process_rows e [] st = ([], st)"
| "process_rows e (row # rows) st =
     (case process_row e row st of
        (res, st1) \<Rightarrow> (case process_rows e rows st1 of (results, st2) \<Rightarrow> (res # results, st2)))"


section \<open>Predicates and inputs used in the statements\<close>

text \<open>
  The early-stop test of the scraper, \<open>pub_year is not None and pub_year < year_min\<close>, on
  a table row.
\<close>

definition below_floor :: "int \<Rightarrow> dom_row \<Rightarrow> bool" where
  "below_floor year_min row =
     (case parse_year (strip (year_cell row)) of None \<Rightarrow> False | Some pub_year \<Rightarrow> pub_year < year_min)"

text \<open>A table sorted by year, newest first: row N is titled rN and has year 2025 - N.\<close>

definition table_row :: "string \<Rightarrow> string \<Rightarrow> dom_row" where
  "table_row t y = \<lparr>authors_cell = ''A Author'', title_text = t, title_href = None, year_cell = y\<rparr>"

definition descending_table :: "dom_row list" where
  "descending_table =
     [table_row ''r0'' ''2025'', table_row ''r1'' ''2024'', table_row ''r2'' ''2023'',
      table_row ''r3'' ''2022'', table_row ''r4'' ''2021'', table_row ''r5'' ''2020'',
      table_row ''r6'' ''2019'', table_row ''r7'' ''2018'', table_row ''r8'' ''2017'',
      table_row ''r9'' ''2016'']"

text \<open>A page that shows the given table states for every query.\<close>

definition page_showing :: "snapshot list \<Rightarrow> page" where
  "page_showing states = (\<lambda>query. \<lparr>rows_appear = True, script = states\<rparr>)"

definition titles :: "scraped list \<Rightarrow> string list" where
  "titles rows = map (\<lambda>r. fst (snd r)) rows"


text \<open>What the trace says about backoff sleeps and about the times of Firecrawl requests.\<close>

fun backoffs :: "event list \<Rightarrow> rat list" where
  "backoffs [] = []"
| "backoffs (Backoff d # evs) = d # backoffs evs"
| "backoffs (ev # evs) = backoffs evs"

fun fc_request_times :: "event list \<Rightarrow> rat list" where
  "fc_request_times [] = []"
| "fc_request_times (Fc_request url wait_for t # evs) = t # fc_request_times evs"
| "fc_request_times (ev # evs) = fc_request_times evs"

text \<open>
  The outcome of the k-th call to each service for a given argument, and its two kinds of
  failure: a throttling error (the message holds "429" or "rate limit") and any other error.
\<close>

definition fc_reply :: "env \<Rightarrow> string \<Rightarrow> nat \<Rightarrow> fc_result reply" where
  "fc_reply e url k = snd (scrape_url e k url (\<not> endswith (lower url) ''.pdf''))"

definition groq_reply :: "env \<Rightarrow> string \<Rightarrow> nat \<Rightarrow> string option reply" where
  "groq_reply e text k = snd (llm_invoke e k (PROMPT_TEMPLATE text))"

definition throttled :: "'a reply \<Rightarrow> bool" where
  "throttled r = (case r of Raised exc \<Rightarrow> is_throttle exc | Replied v \<Rightarrow> False)"

definition hard_error :: "'a reply \<Rightarrow> bool" where
  "hard_error r = (case r of Raised exc \<Rightarrow> \<not> is_throttle exc | Replied v \<Rightarrow> False)"

text \<open>The classification cache holds nothing but the two labels.\<close>

definition labels_only :: "pstate \<Rightarrow> bool" where
  "labels_only st = (\<forall>v\<in>ran (DRIC_CACHE st). v = ''YES'' \<or> v = ''NO'')"

text \<open>
  Services for the examples: every Firecrawl call answers after half a second with the
  given outcome, every model call after a quarter of a second; the digest is a stand-in that
  is injective, and the resolver returns the Scholar link itself.
\<close>

definition services :: "fc_result reply \<Rightarrow> string option reply \<Rightarrow> env" where
  "services fc groq =
     \<lparr>scrape_url = (\<lambda>k url wait_for. (1 / 2, fc)),
      llm_invoke = (\<lambda>k prompt. (1 / 4, groq)),
      sha256_hexdigest = (\<lambda>text. text),
      extract_article_url = (\<lambda>link. Some link)\<rparr>"


definition throttling_services :: env where
  "throttling_services =
     services (Raised ''HTTP 429 Too Many Requests'') (Raised ''Rate limit reached for model'')"

definition failing_services :: env where
  "failing_services = services (Raised ''401 Unauthorized'') (Raised ''Connection reset by peer'')"

definition answering_services :: env where
  "answering_services =
     services (Replied (Fc_dict (Some ''Funded by DRIC.'') None)) (Replied (Some '' yes, it does''))"


text \<open>The state once an attempt has waited for the minimum interval and sent its request.\<close>

definition fc_sent :: "env \<Rightarrow> string \<Rightarrow> pstate \<Rightarrow> pstate" where
  "fc_sent e url st = snd (firecrawl_request e url (firecrawl_wait st))"

definition groq_sent :: "env \<Rightarrow> string \<Rightarrow> pstate \<Rightarrow> pstate" where
  "groq_sent e text st = snd (groq_request e text (groq_wait st))"

text \<open>
  How long the k-th call to each service takes for a given argument, and whether the minimum
  interval since the last recorded call has passed, so that an attempt does not wait.
\<close>

definition fc_duration :: "env \<Rightarrow> string \<Rightarrow> nat \<Rightarrow> rat" where
  "fc_duration e url k = fst (scrape_url e k url (\<not> endswith (lower url) ''.pdf''))"

definition groq_duration :: "env \<Rightarrow> string \<Rightarrow> nat \<Rightarrow> rat" where
  "groq_duration e text k = fst (llm_invoke e k (PROMPT_TEMPLATE text))"

definition fc_ready :: "pstate \<Rightarrow> bool" where
  "fc_ready st =
     (case LAST_FIRECRAWL_CALL st of None \<Rightarrow> True | Some t \<Rightarrow> FIRECRAWL_MIN_INTERVAL \<le> clock st - t)"

definition groq_ready :: "pstate \<Rightarrow> bool" where
  "groq_ready st =
     (case LAST_GROQ_CALL st of None \<Rightarrow> True | Some t \<Rightarrow> GROQ_MIN_INTERVAL \<le> clock st - t)"

text \<open>
  The timeline of a retry sequence as the specification describes it. The requests are
  numbered from 0; request \<open>k\<close> takes \<open>dur k\<close> and, when it is throttled, is followed by a
  sleep of \<open>backoff k\<close>. Request \<open>k\<close> is therefore sent at the start time plus the durations
  and backoffs of the requests before it, and \<open>j\<close> throttled requests leave the events
  request, backoff, request, backoff, ... in this order.
\<close>

definition sent_at :: "rat \<Rightarrow> (nat \<Rightarrow> rat) \<Rightarrow> (nat \<Rightarrow> rat) \<Rightarrow> nat \<Rightarrow> rat" where
  "sent_at start dur backoff k = start + (\<Sum>i<k. dur i + backoff i)"

definition retry_events ::
  "(rat \<Rightarrow> event) \<Rightarrow> rat \<Rightarrow> (nat \<Rightarrow> rat) \<Rightarrow> (nat \<Rightarrow> rat) \<Rightarrow> nat \<Rightarrow> event list" where
  "retry_events request start dur backoff j =
     concat (map (\<lambda>k. [request (sent_at start dur backoff k), Backoff (backoff k)]) [0..<j])"

text \<open>
  Services that throttle the first two calls and answer from the third on; calls take half a
  second (Firecrawl) and a quarter of a second (the model).
\<close>

definition flaky_services :: env where
  "flaky_services =
     \<lparr>scrape_url = (\<lambda>k url wait_for.
        (1 / 2, if k < 2 then Raised ''HTTP 429 Too Many Requests''
                else Replied (Fc_dict (Some ''Funded by DRIC.'') None))),
      llm_invoke = (\<lambda>k prompt.
        (1 / 4, if k < 2 then Raised ''Rate limit reached for model'' else Replied (Some ''YES''))),
      sha256_hexdigest = (\<lambda>text. text),
      extract_article_url = (\<lambda>link. Some link)\<rparr>"



section \<open>Name variants: proofs\<close>

lemma dedup_seen_cong: "set s1 = set s2 \<Longrightarrow> dedup_seen s1 xs = dedup_seen s2 xs"
proof (induction xs arbitrary: s1 s2)
  case Nil
  show ?case by simp
next
  case (Cons x xs)
  have mem: "x \<in> set s1 \<longleftrightarrow> x \<in> set s2" using Cons.prems by simp
  have "set (x # s1) = set (x # s2)" using Cons.prems by simp
  then have a: "dedup_seen (x # s1) xs = dedup_seen (x # s2) xs" by (rule Cons.IH)
  have b: "dedup_seen s1 xs = dedup_seen s2 xs" using Cons.prems by (rule Cons.IH)
  show ?case using mem a b by simp
qed

lemma set_dedup_seen: "set (dedup_seen seen xs) = set xs - set seen"
  by (induction xs arbitrary: seen) auto

lemma distinct_dedup_seen: "distinct (dedup_seen seen xs)"
  by (induction xs arbitrary: seen) (auto simp: set_dedup_seen)

lemma dedup_seen_covered: "set xs \<subseteq> set seen \<Longrightarrow> dedup_seen seen xs = []"
  by (induction xs arbitrary: seen) auto

lemma dedup_seen_distinct_id: "distinct xs \<Longrightarrow> set xs \<inter> set seen = {} \<Longrightarrow> dedup_seen seen xs = xs"
  by (induction xs arbitrary: seen) auto

lemma add_variants_eq: "add_variants vs ord = ord @ dedup_seen ord vs"
proof (induction vs arbitrary: ord)
  case Nil
  then show ?case by (simp add: add_variants_def)
next
  case (Cons v vs)
  have step: "add_variants (v # vs) ord = add_variants vs (if v \<notin> set ord then ord @ [v] else ord)"
    by (simp add: add_variants_def)
  show ?case
  proof (cases "v \<in> set ord")
    case True
    then show ?thesis using Cons.IH [of ord] step by simp
  next
    case False
    have "dedup_seen (ord @ [v]) vs = dedup_seen (v # ord) vs"
      by (rule dedup_seen_cong) auto
    then show ?thesis using False Cons.IH [of "ord @ [v]"] step by simp
  qed
qed

lemma add_preferred_eq:
  "add_preferred xs ord = ord @ dedup_seen ord (filter (\<lambda>v. v \<noteq> []) xs)"
proof (induction xs arbitrary: ord)
  case Nil
  then show ?case by (simp add: add_preferred_def)
next
  case (Cons v vs)
  have step: "add_preferred (v # vs) ord =
      add_preferred vs (if v \<noteq> [] \<and> v \<notin> set ord then ord @ [v] else ord)"
    by (simp add: add_preferred_def)
  show ?case
  proof (cases "v \<noteq> [] \<and> v \<notin> set ord")
    case True
    have "dedup_seen (ord @ [v]) (filter (\<lambda>v. v \<noteq> []) vs) = dedup_seen (v # ord) (filter (\<lambda>v. v \<noteq> []) vs)"
      by (rule dedup_seen_cong) auto
    then show ?thesis using True Cons.IH [of "ord @ [v]"] step by simp
  next
    case False
    then show ?thesis using Cons.IH [of ord] step by auto
  qed
qed

lemma dropWhile_all_iff: "(\<forall>x\<in>set (dropWhile P s). P x) \<longleftrightarrow> (\<forall>x\<in>set s. P x)"
proof
  assume a: "\<forall>x\<in>set (dropWhile P s). P x"
  have "dropWhile P s = []"
  proof (rule ccontr)
    assume n: "dropWhile P s \<noteq> []"
    then have "\<not> P (hd (dropWhile P s))" by (rule hd_dropWhile)
    moreover have "hd (dropWhile P s) \<in> set (dropWhile P s)" using n by simp
    ultimately show False using a by blast
  qed
  then show "\<forall>x\<in>set s. P x" by (simp add: dropWhile_eq_Nil_conv)
next
  assume "\<forall>x\<in>set s. P x"
  then show "\<forall>x\<in>set (dropWhile P s). P x" by (auto dest: set_dropWhileD)
qed

lemma strip_Nil_iff: "strip s = [] \<longleftrightarrow> (\<forall>c\<in>set s. isspace c)"
  by (simp add: strip_def dropWhile_eq_Nil_conv dropWhile_all_iff)

lemma split_from_Nil_iff: "split_from cur s = [] \<longleftrightarrow> cur = [] \<and> (\<forall>c\<in>set s. isspace c)"
  by (induction s arbitrary: cur) auto

lemma split_from_tokens:
  "\<forall>c\<in>set cur. \<not> isspace c \<Longrightarrow> p \<in> set (split_from cur s) \<Longrightarrow> p \<noteq> [] \<and> (\<forall>c\<in>set p. \<not> isspace c)"
proof (induction s arbitrary: cur)
  case Nil
  then show ?case by (cases "cur = []") auto
next
  case (Cons c cs)
  have nil: "\<forall>c\<in>set ([]::string). \<not> isspace c" by simp
  show ?case
  proof (cases "isspace c")
    case True
    show ?thesis
    proof (cases "cur = []")
      case e: True
      then have "p \<in> set (split_from [] cs)" using Cons.prems(2) True by simp
      then show ?thesis by (rule Cons.IH [OF nil])
    next
      case ne: False
      then have "p = cur \<or> p \<in> set (split_from [] cs)" using Cons.prems(2) True by simp
      then show ?thesis
      proof
        assume "p = cur"
        then show ?thesis using ne Cons.prems(1) by simp
      next
        assume "p \<in> set (split_from [] cs)"
        then show ?thesis by (rule Cons.IH [OF nil])
      qed
    qed
  next
    case False
    then have in': "p \<in> set (split_from (cur @ [c]) cs)" using Cons.prems(2) by simp
    have "\<forall>x\<in>set (cur @ [c]). \<not> isspace x" using False Cons.prems(1) by simp
    then show ?thesis using in' by (rule Cons.IH)
  qed
qed

lemma strip_token: "\<forall>c\<in>set p. \<not> isspace c \<Longrightarrow> strip p = p"
proof (cases "p = []")
  case True
  then show ?thesis by (simp add: strip_def)
next
  case False
  assume a: "\<forall>c\<in>set p. \<not> isspace c"
  have "hd p \<in> set p" "last p \<in> set p" using False by simp_all
  then have h: "\<not> isspace (hd p)" "\<not> isspace (last p)" using a by blast+
  have 1: "dropWhile isspace p = p" using h(1) by (simp add: dropWhile_eq_self_iff)
  have 2: "dropWhile isspace (rev p) = rev p"
    using h(2) False by (simp add: dropWhile_eq_self_iff hd_rev)
  show ?thesis by (simp add: strip_def 1 2)
qed

lemma name_parts_split: "name_parts n = split n"
proof -
  have tok: "\<And>p. p \<in> set (split n) \<Longrightarrow> p \<noteq> [] \<and> strip p = p"
    using split_from_tokens [of "[]" _ n] strip_token by (simp add: split_def)
  have "filter (\<lambda>p. strip p \<noteq> []) (split n) = split n"
    using tok by (simp add: filter_id_conv)
  moreover have "map strip (split n) = split n"
    using tok by (simp add: map_idI)
  ultimately show ?thesis by (simp add: name_parts_def)
qed

lemma name_parts_nonempty_strip: "name_parts n \<noteq> [] \<Longrightarrow> strip n \<noteq> []"
  by (simp add: name_parts_split split_def split_from_Nil_iff strip_Nil_iff)

lemma name_parts_token: "p \<in> set (name_parts n) \<Longrightarrow> p \<noteq> [] \<and> (\<forall>c\<in>set p. \<not> isspace c)"
  using split_from_tokens [of "[]" p n] by (simp add: name_parts_split split_def)

lemma split_from_single_cur:
  "cur \<noteq> [] \<Longrightarrow> split_from cur s = [t] \<Longrightarrow>
     \<exists>t' ws2. s = t' @ ws2 \<and> t = cur @ t' \<and> (\<forall>c\<in>set ws2. isspace c)"
proof (induction s arbitrary: cur)
  case Nil
  then show ?case by simp
next
  case (Cons c cs)
  show ?case
  proof (cases "isspace c")
    case True
    have "split_from cur (c # cs) = cur # split_from [] cs"
      using True Cons.prems(1) by simp
    then have ct: "cur = t" and rest: "split_from [] cs = []"
      using Cons.prems(2) by simp_all
    have sp: "\<forall>x\<in>set (c # cs). isspace x"
      using True rest by (simp add: split_from_Nil_iff)
    have "c # cs = [] @ (c # cs) \<and> t = cur @ [] \<and> (\<forall>x\<in>set (c # cs). isspace x)"
      using ct sp by simp
    then show ?thesis by (intro exI)
  next
    case False
    have "split_from cur (c # cs) = split_from (cur @ [c]) cs"
      using False by simp
    then have st: "split_from (cur @ [c]) cs = [t]" using Cons.prems(2) by simp
    have ne: "cur @ [c] \<noteq> []" by simp
    from Cons.IH [OF ne st] obtain t' ws2 where
      h: "cs = t' @ ws2" "t = (cur @ [c]) @ t'" "\<forall>c\<in>set ws2. isspace c" by blast
    have "c # cs = (c # t') @ ws2 \<and> t = cur @ (c # t') \<and> (\<forall>c\<in>set ws2. isspace c)"
      using h by simp
    then show ?thesis by (intro exI)
  qed
qed

lemma split_from_single_nil:
  "split_from [] s = [t] \<Longrightarrow>
     \<exists>ws1 ws2. s = ws1 @ t @ ws2 \<and> (\<forall>c\<in>set ws1. isspace c) \<and> (\<forall>c\<in>set ws2. isspace c)"
proof (induction s)
  case Nil
  then show ?case by simp
next
  case (Cons c cs)
  show ?case
  proof (cases "isspace c")
    case True
    with Cons.prems have "split_from [] cs = [t]" by simp
    from Cons.IH [OF this] obtain ws1 ws2 where
      h: "cs = ws1 @ t @ ws2" "\<forall>c\<in>set ws1. isspace c" "\<forall>c\<in>set ws2. isspace c" by auto
    then have "c # cs = (c # ws1) @ t @ ws2 \<and> (\<forall>x\<in>set (c # ws1). isspace x) \<and> (\<forall>c\<in>set ws2. isspace c)"
      using True by simp
    then show ?thesis by (intro exI)
  next
    case False
    with Cons.prems have "split_from [c] cs = [t]" by simp
    from split_from_single_cur [OF _ this] obtain t' ws2 where
      h: "cs = t' @ ws2" "t = [c] @ t'" "\<forall>c\<in>set ws2. isspace c" by auto
    then have "c # cs = [] @ t @ ws2 \<and> (\<forall>x\<in>set []. isspace x) \<and> (\<forall>c\<in>set ws2. isspace c)" by simp
    then show ?thesis by (intro exI)
  qed
qed

lemma strip_padded:
  assumes "t \<noteq> []" "\<forall>c\<in>set t. \<not> isspace c" "\<forall>c\<in>set ws1. isspace c" "\<forall>c\<in>set ws2. isspace c"
  shows "strip (ws1 @ t @ ws2) = t"
proof -
  have "hd t \<in> set t" "last t \<in> set t" using assms(1) by simp_all
  then have h: "\<not> isspace (hd t)" "\<not> isspace (last t)" using assms(2) by blast+
  obtain a t' where t: "t = a # t'" using assms(1) by (cases t) auto
  have 1: "dropWhile isspace (ws1 @ t @ ws2) = t @ ws2"
    using assms(3) h(1) t by (simp add: dropWhile_append3)
  obtain b r where r: "rev t = b # r" using assms(1) by (cases "rev t") auto
  have "b = last t" using r by (metis last_rev list.sel(1) rev_rev_ident hd_rev)
  then have nb: "\<not> isspace b" using h(2) by simp
  have "dropWhile isspace (rev ws2 @ rev t) = rev t"
    using assms(4) nb r by (simp add: dropWhile_append3)
  then show ?thesis by (simp add: strip_def 1)
qed

lemma single_token_strip: "name_parts n = [t] \<Longrightarrow> strip n = t"
proof -
  assume a: "name_parts n = [t]"
  then have tok: "t \<noteq> [] \<and> (\<forall>c\<in>set t. \<not> isspace c)" using name_parts_token [of t n] by simp
  from a have "split_from [] n = [t]" by (simp add: name_parts_split split_def)
  from split_from_single_nil [OF this] obtain ws1 ws2 where
    "n = ws1 @ t @ ws2" "\<forall>c\<in>set ws1. isspace c" "\<forall>c\<in>set ws2. isspace c" by blast
  then show ?thesis using strip_padded tok by blast
qed

lemma variants_eq_preferred: "variants n = preferred_order n"
  by (simp add: variants_def preferred_order_def)

lemma preferred_nonempty:
  assumes "name_parts n \<noteq> []"
  shows "filter (\<lambda>v. v \<noteq> []) (preferred_order n) = preferred_order n"
proof -
  have "strip n \<noteq> []" using assms by (rule name_parts_nonempty_strip)
  then have "\<forall>v\<in>set (preferred_order n). v \<noteq> []"
    by (auto simp: preferred_order_def Let_def)
  then show ?thesis by (simp add: filter_id_conv)
qed

lemma build_queries_dedup:
  assumes parts: "name_parts n \<noteq> []"
    and iter: "set (set_iter (variants n)) \<subseteq> set (variants n)"
  shows "build_queries set_iter n = dedup_first (preferred_order n)"
proof -
  let ?P = "add_preferred (preferred_order n) []"
  have P: "?P = dedup_first (preferred_order n)"
    by (simp add: add_preferred_eq preferred_nonempty [OF parts] dedup_first_def)
  have "set ?P = set (preferred_order n)"
    by (simp add: P dedup_first_def set_dedup_seen)
  then have "set (set_iter (variants n)) \<subseteq> set ?P"
    using iter by (simp add: variants_eq_preferred)
  then have "dedup_seen ?P (set_iter (variants n)) = []" by (rule dedup_seen_covered)
  then have "add_variants (set_iter (variants n)) ?P = ?P" by (simp add: add_variants_eq)
  then show ?thesis using parts P by (simp add: build_queries_def)
qed

lemma preferred_order_parts:
  assumes "name_parts n = first # middles @ [surname]"
  shows "preferred_order n =
     [strip n, hd first # '' '' @ surname]
     @ map (\<lambda>m. hd m # '' '' @ surname) middles
     @ [(hd first # map hd middles) @ '' '' @ surname]
     @ (if middles = [] then [] else [first @ '' '' @ map hd middles @ [hd surname]])"
  using assms by (simp add: preferred_order_def Let_def)

lemma preferred_order_single:
  assumes "name_parts n = [t]"
  shows "preferred_order n = [strip n, hd t # '' '' @ t, [hd t] @ '' '' @ t]"
  using assms by (simp add: preferred_order_def Let_def)

lemma build_queries_parts:
  assumes parts: "name_parts n = first # middles @ [surname]"
    and iter: "\<And>vs. set (set_iter vs) = set vs"
  shows "build_queries set_iter n =
     dedup_first ([strip n, hd first # '' '' @ surname]
       @ map (\<lambda>m. hd m # '' '' @ surname) middles
       @ [(hd first # map hd middles) @ '' '' @ surname]
       @ (if middles = [] then [] else [first @ '' '' @ map hd middles @ [hd surname]]))"
proof -
  have ne: "name_parts n \<noteq> []" using parts by simp
  have sub: "set (set_iter (variants n)) \<subseteq> set (variants n)" by (simp add: iter)
  show ?thesis
    using build_queries_dedup [of n set_iter, OF ne sub] preferred_order_parts [OF parts] by simp
qed

lemma kwame_parts: "name_parts ''Kwame Asante Boateng'' = ''Kwame'' # [''Asante''] @ [''Boateng'']"
  by (simp add: name_parts_def split_def strip_def isspace_def)

lemma plato_parts: "name_parts ''Plato'' = [''Plato'']"
  by (simp add: name_parts_def split_def strip_def isspace_def)

text \<open>
  Claim C7, as the code has it. For a name of at least two tokens \<open>first middles surname\<close>,
  whatever order the variant set is iterated in, \<open>build_queries\<close> returns the following list
  with duplicates removed (first occurrence kept), and no entry twice: the full name with
  surrounding whitespace stripped, first initial + surname, each middle initial + surname from
  left to right, the concatenated initials + surname, and, when there are middle tokens, the
  first name + the middle initials followed by the surname's initial. For
  "Kwame Asante Boateng" this is "Kwame Asante Boateng", "K Boateng", "A Boateng",
  "KA Boateng", "Kwame AB".
\<close>

theorem build_queries_order:
  assumes parts: "name_parts full_name = first # middles @ [surname]"
    and iter: "\<And>vs. set (set_iter vs) = set vs"
  shows "build_queries set_iter full_name =
           dedup_first ([strip full_name, hd first # '' '' @ surname]
             @ map (\<lambda>m. hd m # '' '' @ surname) middles
             @ [(hd first # map hd middles) @ '' '' @ surname]
             @ (if middles = [] then []
                else [first @ '' '' @ map hd middles @ [hd surname]]))
         \<and> distinct (build_queries set_iter full_name)
         \<and> build_queries set_iter ''Kwame Asante Boateng'' =
             [''Kwame Asante Boateng'', ''K Boateng'', ''A Boateng'', ''KA Boateng'', ''Kwame AB'']"
proof (intro conjI)
  show eq: "build_queries set_iter full_name =
           dedup_first ([strip full_name, hd first # '' '' @ surname]
             @ map (\<lambda>m. hd m # '' '' @ surname) middles
             @ [(hd first # map hd middles) @ '' '' @ surname]
             @ (if middles = [] then []
                else [first @ '' '' @ map hd middles @ [hd surname]]))"
    using parts iter by (rule build_queries_parts)
  show "distinct (build_queries set_iter full_name)"
    unfolding eq dedup_first_def by (rule distinct_dedup_seen)
  show "build_queries set_iter ''Kwame Asante Boateng'' =
      [''Kwame Asante Boateng'', ''K Boateng'', ''A Boateng'', ''KA Boateng'', ''Kwame AB'']"
    using build_queries_parts [OF kwame_parts iter]
    by (simp add: dedup_first_def strip_def isspace_def)
qed

theorem build_queries_order_witness:
  "name_parts ''Kwame Asante Boateng'' = ''Kwame'' # [''Asante''] @ [''Boateng'']
   \<and> (\<forall>vs::string list. set (rev vs) = set vs)
   \<and> build_queries rev ''Kwame Asante Boateng'' =
       [''Kwame Asante Boateng'', ''K Boateng'', ''A Boateng'', ''KA Boateng'', ''Kwame AB'']"
  using build_queries_order [OF kwame_parts, of rev] kwame_parts
  by (simp add: dedup_first_def strip_def isspace_def)

text \<open>
  Claim C7 as stated names the original full name as the first variant. A name with a
  leading space is not among its own variants: the code strips it.
\<close>

theorem build_queries_original_name_counterexample:
  "build_queries id '' Kwame Boateng'' = [''Kwame Boateng'', ''K Boateng'']
   \<and> '' Kwame Boateng'' \<notin> set (build_queries id '' Kwame Boateng'')"
  by (simp add: build_queries_def name_parts_def split_def strip_def isspace_def
      add_variants_def add_preferred_def preferred_order_def variants_def Let_def)

text \<open>
  Claim C8, as the code has it. For a single-token name the token \<open>t\<close> is not empty (so
  \<open>first[0]\<close> does not raise) and \<open>build_queries\<close> returns two entries, the token and its
  initial followed by the token again: for "Plato" these are "Plato" and "P Plato". The
  second entry is a different string and is not filtered out.
\<close>

theorem build_queries_single_token:
  assumes parts: "name_parts full_name = [t]"
    and iter: "\<And>vs. set (set_iter vs) = set vs"
  shows "t \<noteq> []
         \<and> build_queries set_iter full_name = [t, hd t # '' '' @ t]
         \<and> build_queries set_iter ''Plato'' = [''Plato'', ''P Plato'']"
proof -
  have gen: "build_queries set_iter n = [u, hd u # '' '' @ u]" if p: "name_parts n = [u]" for n u
  proof -
    have ne: "name_parts n \<noteq> []" using p by simp
    have sub: "set (set_iter (variants n)) \<subseteq> set (variants n)" by (simp add: iter)
    have st: "strip n = u" using p by (rule single_token_strip)
    have "length u \<noteq> length (hd u # '' '' @ u)" by simp
    then have diff: "u \<noteq> hd u # '' '' @ u" by metis
    show ?thesis
      using build_queries_dedup [of n set_iter, OF ne sub] preferred_order_single [OF p] st diff
      by (simp add: dedup_first_def)
  qed
  have "t \<in> set (name_parts full_name)" using parts by simp
  then have "t \<noteq> []" using name_parts_token by blast
  then show ?thesis using gen [OF parts] gen [OF plato_parts] by simp
qed

theorem build_queries_single_token_witness:
  "name_parts ''Plato'' = [''Plato'']
   \<and> (\<forall>vs::string list. set (rev vs) = set vs)
   \<and> build_queries rev ''Plato'' = [''Plato'', ''P Plato'']"
  using build_queries_single_token [OF plato_parts, of rev] plato_parts by simp

theorem build_queries_plato_counterexample:
  "build_queries id ''Plato'' = [''Plato'', ''P Plato'']
   \<and> build_queries id ''Plato'' \<noteq> [''Plato'']"
  by (simp add: build_queries_def name_parts_def split_def strip_def isspace_def
      add_variants_def add_preferred_def preferred_order_def variants_def Let_def)


section \<open>The table scraper: proofs\<close>

lemma extract_rows_step:
  "extract_rows year_min rows (i # idxs) results =
     (if below_floor year_min (rows ! i) then Returned results
      else extract_rows year_min rows idxs (results @ [extract_row (rows ! i)]))"
  by (simp add: below_floor_def extract_row_def split: option.splits)

lemma extract_rows_all_kept:
  "\<forall>j\<in>set idxs. \<not> below_floor year_min (rows ! j) \<Longrightarrow>
   extract_rows year_min rows idxs results =
     Completed (results @ map (\<lambda>j. extract_row (rows ! j)) idxs)"
proof (induction idxs arbitrary: results)
  case Nil
  show ?case by simp
next
  case (Cons i idxs)
  have "\<forall>j\<in>set idxs. \<not> below_floor year_min (rows ! j)" using Cons.prems by simp
  from Cons.IH [OF this] show ?case using Cons.prems by (simp add: extract_rows_step del: extract_rows.simps)
qed

lemma extract_rows_stop:
  "\<forall>j\<in>set pre. \<not> below_floor year_min (rows ! j) \<Longrightarrow> below_floor year_min (rows ! i) \<Longrightarrow>
   extract_rows year_min rows (pre @ i # post) results =
     Returned (results @ map (\<lambda>j. extract_row (rows ! j)) pre)"
proof (induction pre arbitrary: results)
  case Nil
  then show ?case by (simp add: extract_rows_step del: extract_rows.simps)
next
  case (Cons k pre)
  have "\<forall>j\<in>set pre. \<not> below_floor year_min (rows ! j)" using Cons.prems(1) by simp
  from Cons.IH [OF this Cons.prems(2)] show ?case
    using Cons.prems(1) by (simp add: extract_rows_step del: extract_rows.simps)
qed

lemma map_nth_upt_take:
  "n \<le> length xs \<Longrightarrow> map (\<lambda>j. f (xs ! j)) [0..<n] = map f (take n xs)"
  by (simp add: list_eq_iff_nth_eq)

lemma scroll_loop_stop:
  assumes kept: "\<forall>j\<in>set pre. \<not> below_floor year_min (rendered s ! j)"
    and stop: "below_floor year_min (rendered s ! i)"
    and range: "row_range last_count (int (length (rendered s))) per_name_limit = pre @ i # post"
  shows "scroll_loop year_min per_name_limit (s # ss) last_count results =
           results @ map (\<lambda>j. extract_row (rendered s ! j)) pre"
  using extract_rows_stop [OF kept stop, of post results] range by (simp add: Let_def)

lemma descending_floor:
  assumes years: "map (\<lambda>r. parse_year (strip (year_cell r))) t =
                    map (\<lambda>N. Some (2025 - int N)) [0..<length t]"
    and N: "N < length t"
  shows "below_floor 2020 (t ! N) \<longleftrightarrow> 6 \<le> N"
proof -
  have "map (\<lambda>r. parse_year (strip (year_cell r))) t ! N =
        map (\<lambda>N. Some (2025 - int N)) [0..<length t] ! N" using years by simp
  then have "parse_year (strip (year_cell (t ! N))) = Some (2025 - int N)" using N by simp
  then show ?thesis by (auto simp: below_floor_def)
qed

lemma scrape_descending:
  assumes years: "map (\<lambda>r. parse_year (strip (year_cell r))) t =
                    map (\<lambda>N. Some (2025 - int N)) [0..<length t]"
    and len: "7 \<le> length t"
    and cap: "case cap of None \<Rightarrow> True | Some l \<Rightarrow> 6 \<le> l"
  shows "scrape_for_name (page_showing (\<lparr>rendered = t, scroll_ok = ok\<rparr> # rest)) q 2020 year_max cap =
           map extract_row (take 6 t)"
proof -
  let ?s = "\<lparr>rendered = t, scroll_ok = ok\<rparr>"
  have start: "scrape_for_name (page_showing (?s # rest)) q 2020 year_max cap =
               scroll_loop 2020 cap (?s # rest) (- 1) []"
    by (simp add: scrape_for_name_def page_showing_def)
  have kept6: "\<forall>j\<in>set [0..<6]. \<not> below_floor 2020 (rendered ?s ! j)"
    using descending_floor [OF years] len by auto
  have m6: "map (\<lambda>j. extract_row (t ! j)) [0..<6] = map extract_row (take 6 t)"
    using len by (intro map_nth_upt_take) simp
  show ?thesis
  proof (cases "cap = Some 6")
    case True
    have rr: "row_range (- 1) (int (length t)) cap = [0..<6]"
      using True len by (simp add: row_range_def)
    have "extract_rows 2020 t [0..<6] [] = Completed (map (\<lambda>j. extract_row (t ! j)) [0..<6])"
      using extract_rows_all_kept [of "[0..<6]" 2020 t "[]"] kept6 by simp
    then show ?thesis
      using start rr True m6 len by (simp add: Let_def take_limit_def)
  next
    case False
    define k where "k = nat (case cap of None \<Rightarrow> int (length t) | Some l \<Rightarrow> min (int (length t)) l)"
    have k7: "7 \<le> k" using False cap len by (auto simp: k_def split: option.splits)
    have kl: "k \<le> length t" by (auto simp: k_def split: option.splits)
    have rr: "row_range (- 1) (int (length (rendered ?s))) cap = [0..<k]"
      by (simp add: row_range_def k_def)
    have "[0..<6 + (k - 6)] = [0..<6] @ [6..<6 + (k - 6)]" by (rule upt_add_eq_append) simp
    moreover have "6 + (k - 6) = k" using k7 by simp
    ultimately have "[0..<k] = [0..<6] @ [6..<k]" by simp
    moreover have "[6..<k] = 6 # [7..<k]" using k7 by (simp add: upt_conv_Cons)
    ultimately have split: "[0..<k] = [0..<6] @ 6 # [7..<k]" by simp
    have stop: "below_floor 2020 (rendered ?s ! 6)"
      using descending_floor [OF years, of 6] len by simp
    have "scroll_loop 2020 cap (?s # rest) (- 1) [] = [] @ map (\<lambda>j. extract_row (rendered ?s ! j)) [0..<6]"
      using rr split by (intro scroll_loop_stop [OF kept6 stop, of "- 1" cap "[7..<k]"]) simp
    then show ?thesis using start m6 by simp
  qed
qed

text \<open>
  Claim C1 fails on the code. The table of the claim, row N with year 2025 - N, is read with
  \<open>year_min = 2020\<close> and no per-query cap. When the page shows rows 0 to 2 at the first read
  and all ten rows after the scroll, the second pass starts at index 4: \<open>last_count\<close> holds the
  previous count, 3, and the range starts at \<open>last_count + 1\<close>. Row 3, of 2022, is never
  extracted, and the result is rows 0, 1, 2, 4 and 5 instead of rows 0 to 5. The early stop
  itself works: the second pass returns at row 6, of 2019, and when the first read shows the
  whole table the result is rows 0 to 5.
\<close>

theorem scrape_early_stop_misses_row:
  "titles (scrape_for_name
       (page_showing [\<lparr>rendered = take 3 descending_table, scroll_ok = True\<rparr>,
                      \<lparr>rendered = descending_table, scroll_ok = True\<rparr>])
       ''q'' 2020 2025 None) = [''r0'', ''r1'', ''r2'', ''r4'', ''r5'']
   \<and> titles (scrape_for_name (page_showing [\<lparr>rendered = descending_table, scroll_ok = True\<rparr>])
       ''q'' 2020 2025 None) = [''r0'', ''r1'', ''r2'', ''r3'', ''r4'', ''r5'']
   \<and> row_range 3 10 None = [4, 5, 6, 7, 8, 9]"
  by (simp add: titles_def scrape_for_name_def page_showing_def descending_table_def table_row_def
      row_range_def take_limit_def extract_row_def parse_year_def strip_def isspace_def isdigit_def
      int_of_digits_def digit_val_def upt_rec)

text \<open>
  Claim C2 fails on the code. When the table shows 2 rows at the first read and 4 at the
  second, the second pass starts at index 3: \<open>last_count\<close> holds the previous count, 2, and the
  range starts at \<open>last_count + 1\<close>. Row 2 is never extracted.
\<close>

theorem scrape_skips_row:
  "titles (scrape_for_name
       (page_showing [\<lparr>rendered = take 2 descending_table, scroll_ok = True\<rparr>,
                      \<lparr>rendered = take 4 descending_table, scroll_ok = True\<rparr>])
       ''q'' 2000 2025 None) = [''r0'', ''r1'', ''r3'']
   \<and> row_range 2 4 None = [3]"
  by (simp add: titles_def scrape_for_name_def page_showing_def descending_table_def table_row_def
      row_range_def take_limit_def extract_row_def parse_year_def strip_def isspace_def isdigit_def
      int_of_digits_def digit_val_def upt_rec)


section \<open>Period parsing: proofs\<close>

lemma list_min_Min:
  assumes "ys \<noteq> []"
  shows "list_min ys = Min (set ys)"
proof (cases ys)
  case Nil
  then show ?thesis using assms by simp
next
  case (Cons a list)
  show ?thesis
    using Min.set_eq_fold [of a list]
    by (simp add: Cons list_min_def foldl_conv_fold min.commute)
qed

lemma list_max_Max:
  assumes "ys \<noteq> []"
  shows "list_max ys = Max (set ys)"
proof (cases ys)
  case Nil
  then show ?thesis using assms by simp
next
  case (Cons a list)
  show ?thesis
    using Max.set_eq_fold [of a list]
    by (simp add: Cons list_max_def foldl_conv_fold max.commute)
qed

lemma period_years_some:
  assumes "re_findall_d4 p \<noteq> []"
  shows "period_years p =
           Inr (Min (set (map int_of_digits (re_findall_d4 p))),
                Max (set (map int_of_digits (re_findall_d4 p))))"
proof -
  let ?ys = "map int_of_digits (re_findall_d4 p)"
  have ne: "?ys \<noteq> []" using assms by simp
  show ?thesis
  proof (cases "length ?ys = 1")
    case True
    then obtain y where y: "?ys = [y]" by (cases ?ys) auto
    show ?thesis unfolding period_years_def Let_def y by simp
  next
    case False
    then show ?thesis
      using ne by (simp add: period_years_def Let_def list_min_Min list_max_Max del: set_map)
  qed
qed

lemma fetch_period_no_year:
  assumes "re_findall_d4 period = []"
  shows "snd (fetch_period set_iter files page period limit) = []
         \<and> (\<exists>e. fst (fetch_period set_iter files page period limit) = Inl e)"
  using assms by (cases "files (awardee_csv period)") (simp_all add: fetch_period_def period_years_def)

lemma findall_range: "re_findall_d4 ''2016-2017'' = [''2016'', ''2017'']"
  by (simp add: isdigit_def)

lemma findall_none: "re_findall_d4 ''no-year-here'' = []"
  by (simp add: isdigit_def)

text \<open>
  Claim C9, as the code has it. The year bounds of a period string are the minimum and the
  maximum of its groups of four digits: "2016-2017" gives (2016, 2017) and "2020" gives
  (2020, 2020). For a period with no such group \<open>fetch_period\<close> raises before the browser is
  started; the exception is the \<open>ValueError\<close> of the period parser when the awardee file of
  the period exists and loads, since the file is looked up first.
\<close>

theorem period_parsing:
  "period_years ''2016-2017'' = Inr (2016, 2017)
   \<and> period_years ''2020'' = Inr (2020, 2020)
   \<and> (re_findall_d4 p \<noteq> [] \<longrightarrow>
        period_years p = Inr (Min (set (map int_of_digits (re_findall_d4 p))),
                              Max (set (map int_of_digits (re_findall_d4 p)))))
   \<and> (re_findall_d4 period = [] \<longrightarrow>
        snd (fetch_period set_iter files page period limit) = []
        \<and> (\<exists>e. fst (fetch_period set_iter files page period limit) = Inl e))
   \<and> (re_findall_d4 period = [] \<and> files (awardee_csv period) = Awardees names \<longrightarrow>
        fetch_period set_iter files page period limit = (Inl (ValueError period), []))"
proof (intro conjI impI)
  show "period_years ''2016-2017'' = Inr (2016, 2017)"
    by (simp add: period_years_def isdigit_def int_of_digits_def digit_val_def
        list_min_def list_max_def)
  show "period_years ''2020'' = Inr (2020, 2020)"
    by (simp add: period_years_def isdigit_def int_of_digits_def digit_val_def)
  show "period_years p = Inr (Min (set (map int_of_digits (re_findall_d4 p))),
                              Max (set (map int_of_digits (re_findall_d4 p))))"
    if "re_findall_d4 p \<noteq> []" using that by (rule period_years_some)
  show "snd (fetch_period set_iter files page period limit) = []"
    if "re_findall_d4 period = []" using fetch_period_no_year [OF that] by blast
  show "\<exists>e. fst (fetch_period set_iter files page period limit) = Inl e"
    if "re_findall_d4 period = []" using fetch_period_no_year [OF that] by blast
  show "fetch_period set_iter files page period limit = (Inl (ValueError period), [])"
    if "re_findall_d4 period = [] \<and> files (awardee_csv period) = Awardees names"
    using that by (simp add: fetch_period_def period_years_def)
qed

theorem period_parsing_witness:
  "re_findall_d4 ''2016-2017'' \<noteq> []
   \<and> re_findall_d4 ''no-year-here'' = []
   \<and> (\<lambda>path. Awardees [''Ama Mensah'']) (awardee_csv ''no-year-here'') = Awardees [''Ama Mensah'']
   \<and> period_years ''2016-2017'' = Inr (2016, 2017)
   \<and> fetch_period id (\<lambda>path. Awardees [''Ama Mensah'']) (page_showing []) ''no-year-here'' 10 =
       (Inl (ValueError ''no-year-here''), [])"
  using period_parsing [of "''2016-2017''" "''no-year-here''" id "\<lambda>path. Awardees [''Ama Mensah'']"
      "page_showing []" 10 "[''Ama Mensah'']"]
  by (simp add: isdigit_def)

text \<open>
  Claim C9 as stated has every period without a year fail with a parse error. When the
  awardee file of the period is missing, the failure is the file error.
\<close>

theorem fetch_period_missing_file_counterexample:
  "fetch_period id (\<lambda>path. Missing) (page_showing []) ''no-year-here'' 10 =
     (Inl (FileNotFoundError ''Data/awardees_by_period/awardees_no-year-here.csv''), [])"
  by (simp add: fetch_period_def awardee_csv_def)


section \<open>The retry loops: proofs\<close>

lemma backoffs_append: "backoffs (xs @ ys) = backoffs xs @ backoffs ys"
  by (induction xs rule: backoffs.induct) simp_all

lemma firecrawl_wait_fields:
  "fc_calls (firecrawl_wait st) = fc_calls st"
  "groq_calls (firecrawl_wait st) = groq_calls st"
  "ARTICLE_CACHE (firecrawl_wait st) = ARTICLE_CACHE st"
  "DRIC_CACHE (firecrawl_wait st) = DRIC_CACHE st"
  "LAST_FIRECRAWL_CALL (firecrawl_wait st) = LAST_FIRECRAWL_CALL st"
  "LAST_GROQ_CALL (firecrawl_wait st) = LAST_GROQ_CALL st"
  "backoffs (trace (firecrawl_wait st)) = backoffs (trace st)"
  by (simp_all add: firecrawl_wait_def sleep_rate_def Let_def backoffs_append split: option.splits)

lemma firecrawl_request_fields:
  "fst (firecrawl_request e url st) = fc_reply e url (fc_calls st)"
  "fc_calls (snd (firecrawl_request e url st)) = Suc (fc_calls st)"
  "groq_calls (snd (firecrawl_request e url st)) = groq_calls st"
  "ARTICLE_CACHE (snd (firecrawl_request e url st)) = ARTICLE_CACHE st"
  "DRIC_CACHE (snd (firecrawl_request e url st)) = DRIC_CACHE st"
  "LAST_FIRECRAWL_CALL (snd (firecrawl_request e url st)) = LAST_FIRECRAWL_CALL st"
  "LAST_GROQ_CALL (snd (firecrawl_request e url st)) = LAST_GROQ_CALL st"
  "backoffs (trace (snd (firecrawl_request e url st))) = backoffs (trace st)"
  by (simp_all add: firecrawl_request_def fc_reply_def Let_def backoffs_append)

lemma sleep_backoff_fields:
  "fc_calls (sleep_backoff d st) = fc_calls st"
  "groq_calls (sleep_backoff d st) = groq_calls st"
  "ARTICLE_CACHE (sleep_backoff d st) = ARTICLE_CACHE st"
  "DRIC_CACHE (sleep_backoff d st) = DRIC_CACHE st"
  "LAST_FIRECRAWL_CALL (sleep_backoff d st) = LAST_FIRECRAWL_CALL st"
  "LAST_GROQ_CALL (sleep_backoff d st) = LAST_GROQ_CALL st"
  "backoffs (trace (sleep_backoff d st)) = backoffs (trace st) @ [d]"
  by (simp_all add: sleep_backoff_def backoffs_append)

lemma fc_sent_fields:
  "fc_calls (fc_sent e url st) = Suc (fc_calls st)"
  "groq_calls (fc_sent e url st) = groq_calls st"
  "ARTICLE_CACHE (fc_sent e url st) = ARTICLE_CACHE st"
  "DRIC_CACHE (fc_sent e url st) = DRIC_CACHE st"
  "LAST_FIRECRAWL_CALL (fc_sent e url st) = LAST_FIRECRAWL_CALL st"
  "LAST_GROQ_CALL (fc_sent e url st) = LAST_GROQ_CALL st"
  "backoffs (trace (fc_sent e url st)) = backoffs (trace st)"
  by (simp_all add: fc_sent_def firecrawl_request_fields firecrawl_wait_fields)

lemma crawl_step:
  "crawl_attempts e url (a # as) st =
     (case fc_reply e url (fc_calls st) of
        Replied result \<Rightarrow>
          (fc_text result, (fc_sent e url st)\<lparr>ARTICLE_CACHE := (ARTICLE_CACHE (fc_sent e url st))(url \<mapsto> fc_text result)\<rparr>)
      | Raised exc \<Rightarrow>
          if is_throttle exc
          then crawl_attempts e url as (sleep_backoff (FIRECRAWL_MIN_INTERVAL * of_int a) (fc_sent e url st))
          else crawl_failed url (fc_sent e url st))"
proof -
  obtain r st2 where rs: "firecrawl_request e url (firecrawl_wait st) = (r, st2)"
    by (cases "firecrawl_request e url (firecrawl_wait st)")
  have r: "r = fc_reply e url (fc_calls st)"
    using firecrawl_request_fields(1) [of e url "firecrawl_wait st"] rs
    by (simp add: firecrawl_wait_fields)
  have s: "st2 = fc_sent e url st" using rs by (simp add: fc_sent_def)
  show ?thesis using rs r s by (simp add: Let_def split: reply.splits)
qed

lemma crawl_failed_fields:
  "fst (crawl_failed url st) = []"
  "fc_calls (snd (crawl_failed url st)) = fc_calls st"
  "groq_calls (snd (crawl_failed url st)) = groq_calls st"
  "ARTICLE_CACHE (snd (crawl_failed url st)) = (ARTICLE_CACHE st)(url \<mapsto> [])"
  "DRIC_CACHE (snd (crawl_failed url st)) = DRIC_CACHE st"
  "LAST_FIRECRAWL_CALL (snd (crawl_failed url st)) = LAST_FIRECRAWL_CALL st"
  "LAST_GROQ_CALL (snd (crawl_failed url st)) = LAST_GROQ_CALL st"
  "backoffs (trace (snd (crawl_failed url st))) = backoffs (trace st)"
  by (simp_all add: crawl_failed_def)

lemma throttledE:
  assumes "throttled r"
  obtains exc where "r = Raised exc" "is_throttle exc"
  using assms by (cases r) (simp_all add: throttled_def)

lemma hard_errorE:
  assumes "hard_error r"
  obtains exc where "r = Raised exc" "\<not> is_throttle exc"
  using assms by (cases r) (simp_all add: hard_error_def)

lemma crawl_attempts_fail:
  assumes "j \<le> length as"
    and "\<forall>k<j. throttled (fc_reply e url (fc_calls st + k))"
    and "j = length as \<or> hard_error (fc_reply e url (fc_calls st + j))"
  shows "fst (crawl_attempts e url as st) = []
       \<and> ARTICLE_CACHE (snd (crawl_attempts e url as st)) = (ARTICLE_CACHE st)(url \<mapsto> [])
       \<and> fc_calls (snd (crawl_attempts e url as st)) = fc_calls st + (if j = length as then j else Suc j)
       \<and> backoffs (trace (snd (crawl_attempts e url as st))) =
           backoffs (trace st) @ map (\<lambda>a. FIRECRAWL_MIN_INTERVAL * of_int a) (take j as)"
  using assms
proof (induction as arbitrary: st j)
  case Nil
  then show ?case by (simp add: crawl_failed_fields)
next
  case (Cons a as)
  show ?case
  proof (cases j)
    case 0
    then have "hard_error (fc_reply e url (fc_calls st))" using Cons.prems(3) by simp
    then obtain exc where "fc_reply e url (fc_calls st) = Raised exc" "\<not> is_throttle exc"
      by (rule hard_errorE)
    then have "crawl_attempts e url (a # as) st = crawl_failed url (fc_sent e url st)"
      by (simp add: crawl_step del: crawl_attempts.simps)
    then show ?thesis using 0 by (simp add: crawl_failed_fields fc_sent_fields del: crawl_attempts.simps)
  next
    case (Suc j')
    have "throttled (fc_reply e url (fc_calls st + 0))" using Cons.prems(2) Suc by blast
    then obtain exc where "fc_reply e url (fc_calls st) = Raised exc" "is_throttle exc"
      by (auto elim: throttledE)
    then have step: "crawl_attempts e url (a # as) st =
        crawl_attempts e url as (sleep_backoff (FIRECRAWL_MIN_INTERVAL * of_int a) (fc_sent e url st))"
      by (simp add: crawl_step del: crawl_attempts.simps)
    let ?st3 = "sleep_backoff (FIRECRAWL_MIN_INTERVAL * of_int a) (fc_sent e url st)"
    have c3: "fc_calls ?st3 = Suc (fc_calls st)" by (simp add: sleep_backoff_fields fc_sent_fields)
    have p1: "j' \<le> length as" using Cons.prems(1) Suc by simp
    have p2: "\<forall>k<j'. throttled (fc_reply e url (fc_calls ?st3 + k))"
    proof (intro allI impI)
      fix k assume "k < j'"
      then have "Suc k < j" using Suc by simp
      then have "throttled (fc_reply e url (fc_calls st + Suc k))" using Cons.prems(2) by blast
      then show "throttled (fc_reply e url (fc_calls ?st3 + k))" by (simp add: sleep_backoff_fields fc_sent_fields)
    qed
    have p3: "j' = length as \<or> hard_error (fc_reply e url (fc_calls ?st3 + j'))"
      using Cons.prems(3) Suc by (simp add: sleep_backoff_fields fc_sent_fields)
    from Cons.IH [OF p1 p2 p3] show ?thesis
      unfolding step using Suc by (simp add: sleep_backoff_fields fc_sent_fields)
  qed
qed

lemma crawl_attempts_success:
  assumes "j < length as"
    and "\<forall>k<j. throttled (fc_reply e url (fc_calls st + k))"
    and "fc_reply e url (fc_calls st + j) = Replied result"
  shows "fst (crawl_attempts e url as st) = fc_text result
       \<and> ARTICLE_CACHE (snd (crawl_attempts e url as st)) = (ARTICLE_CACHE st)(url \<mapsto> fc_text result)
       \<and> fc_calls (snd (crawl_attempts e url as st)) = fc_calls st + Suc j
       \<and> backoffs (trace (snd (crawl_attempts e url as st))) =
           backoffs (trace st) @ map (\<lambda>a. FIRECRAWL_MIN_INTERVAL * of_int a) (take j as)"
  using assms
proof (induction as arbitrary: st j)
  case Nil
  then show ?case by simp
next
  case (Cons a as)
  show ?case
  proof (cases j)
    case 0
    then have "fc_reply e url (fc_calls st) = Replied result" using Cons.prems(3) by simp
    then have "crawl_attempts e url (a # as) st =
      (fc_text result, (fc_sent e url st)\<lparr>ARTICLE_CACHE := (ARTICLE_CACHE (fc_sent e url st))(url \<mapsto> fc_text result)\<rparr>)"
      by (simp add: crawl_step del: crawl_attempts.simps)
    then show ?thesis using 0 by (simp add: fc_sent_fields del: crawl_attempts.simps)
  next
    case (Suc j')
    have "throttled (fc_reply e url (fc_calls st + 0))" using Cons.prems(2) Suc by blast
    then obtain exc where "fc_reply e url (fc_calls st) = Raised exc" "is_throttle exc"
      by (auto elim: throttledE)
    then have step: "crawl_attempts e url (a # as) st =
        crawl_attempts e url as (sleep_backoff (FIRECRAWL_MIN_INTERVAL * of_int a) (fc_sent e url st))"
      by (simp add: crawl_step del: crawl_attempts.simps)
    let ?st3 = "sleep_backoff (FIRECRAWL_MIN_INTERVAL * of_int a) (fc_sent e url st)"
    have c3: "fc_calls ?st3 = Suc (fc_calls st)" by (simp add: sleep_backoff_fields fc_sent_fields)
    have p1: "j' < length as" using Cons.prems(1) Suc by simp
    have p2: "\<forall>k<j'. throttled (fc_reply e url (fc_calls ?st3 + k))"
    proof (intro allI impI)
      fix k assume "k < j'"
      then have "Suc k < j" using Suc by simp
      then have "throttled (fc_reply e url (fc_calls st + Suc k))" using Cons.prems(2) by blast
      then show "throttled (fc_reply e url (fc_calls ?st3 + k))" by (simp add: sleep_backoff_fields fc_sent_fields)
    qed
    have p3: "fc_reply e url (fc_calls ?st3 + j') = Replied result"
      using Cons.prems(3) Suc by (simp add: sleep_backoff_fields fc_sent_fields)
    from Cons.IH [OF p1 p2 p3] show ?thesis
      unfolding step using Suc by (simp add: sleep_backoff_fields fc_sent_fields)
  qed
qed

lemma groq_wait_fields:
  "groq_calls (groq_wait st) = groq_calls st"
  "fc_calls (groq_wait st) = fc_calls st"
  "DRIC_CACHE (groq_wait st) = DRIC_CACHE st"
  "ARTICLE_CACHE (groq_wait st) = ARTICLE_CACHE st"
  "LAST_FIRECRAWL_CALL (groq_wait st) = LAST_FIRECRAWL_CALL st"
  "LAST_GROQ_CALL (groq_wait st) = LAST_GROQ_CALL st"
  "backoffs (trace (groq_wait st)) = backoffs (trace st)"
  by (simp_all add: groq_wait_def sleep_rate_def Let_def backoffs_append split: option.splits)

lemma groq_request_fields:
  "fst (groq_request e text st) = groq_reply e text (groq_calls st)"
  "groq_calls (snd (groq_request e text st)) = Suc (groq_calls st)"
  "fc_calls (snd (groq_request e text st)) = fc_calls st"
  "DRIC_CACHE (snd (groq_request e text st)) = DRIC_CACHE st"
  "ARTICLE_CACHE (snd (groq_request e text st)) = ARTICLE_CACHE st"
  "LAST_FIRECRAWL_CALL (snd (groq_request e text st)) = LAST_FIRECRAWL_CALL st"
  "LAST_GROQ_CALL (snd (groq_request e text st)) = Some (clock st)"
  "backoffs (trace (snd (groq_request e text st))) = backoffs (trace st)"
  by (simp_all add: groq_request_def groq_reply_def Let_def backoffs_append)

lemma groq_sent_fields:
  "groq_calls (groq_sent e text st) = Suc (groq_calls st)"
  "fc_calls (groq_sent e text st) = fc_calls st"
  "DRIC_CACHE (groq_sent e text st) = DRIC_CACHE st"
  "ARTICLE_CACHE (groq_sent e text st) = ARTICLE_CACHE st"
  "LAST_FIRECRAWL_CALL (groq_sent e text st) = LAST_FIRECRAWL_CALL st"
  "LAST_GROQ_CALL (groq_sent e text st) = Some (clock (groq_wait st))"
  "backoffs (trace (groq_sent e text st)) = backoffs (trace st)"
  by (simp_all add: groq_sent_def groq_request_fields groq_wait_fields)

lemma dric_step:
  "dric_attempts e text digest (a # as) st =
     (case groq_reply e text (groq_calls st) of
        Replied content \<Rightarrow>
          (parse_answer content, (groq_sent e text st)\<lparr>DRIC_CACHE := (DRIC_CACHE (groq_sent e text st))(digest \<mapsto> parse_answer content)\<rparr>)
      | Raised exc \<Rightarrow>
          if is_throttle exc
          then dric_attempts e text digest as (sleep_backoff (3 / 2 * of_int a) (groq_sent e text st))
          else dric_failed digest (groq_sent e text st))"
proof -
  obtain r st2 where rs: "groq_request e text (groq_wait st) = (r, st2)"
    by (cases "groq_request e text (groq_wait st)")
  have r: "r = groq_reply e text (groq_calls st)"
    using groq_request_fields(1) [of e "text" "groq_wait st"] rs
    by (simp add: groq_wait_fields)
  have s: "st2 = groq_sent e text st" using rs by (simp add: groq_sent_def)
  show ?thesis using rs r s by (simp add: Let_def split: reply.splits)
qed

lemma dric_failed_fields:
  "fst (dric_failed digest st) = ''NO''"
  "groq_calls (snd (dric_failed digest st)) = groq_calls st"
  "fc_calls (snd (dric_failed digest st)) = fc_calls st"
  "DRIC_CACHE (snd (dric_failed digest st)) = (DRIC_CACHE st)(digest \<mapsto> ''NO'')"
  "ARTICLE_CACHE (snd (dric_failed digest st)) = ARTICLE_CACHE st"
  "LAST_FIRECRAWL_CALL (snd (dric_failed digest st)) = LAST_FIRECRAWL_CALL st"
  "LAST_GROQ_CALL (snd (dric_failed digest st)) = LAST_GROQ_CALL st"
  "backoffs (trace (snd (dric_failed digest st))) = backoffs (trace st)"
  by (simp_all add: dric_failed_def)

lemma dric_attempts_fail:
  assumes "j \<le> length as"
    and "\<forall>k<j. throttled (groq_reply e text (groq_calls st + k))"
    and "j = length as \<or> hard_error (groq_reply e text (groq_calls st + j))"
  shows "fst (dric_attempts e text digest as st) = ''NO''
       \<and> DRIC_CACHE (snd (dric_attempts e text digest as st)) = (DRIC_CACHE st)(digest \<mapsto> ''NO'')
       \<and> groq_calls (snd (dric_attempts e text digest as st)) = groq_calls st + (if j = length as then j else Suc j)
       \<and> backoffs (trace (snd (dric_attempts e text digest as st))) =
           backoffs (trace st) @ map (\<lambda>a. 3 / 2 * of_int a) (take j as)"
  using assms
proof (induction as arbitrary: st j)
  case Nil
  then show ?case by (simp add: dric_failed_fields)
next
  case (Cons a as)
  show ?case
  proof (cases j)
    case 0
    then have "hard_error (groq_reply e text (groq_calls st))" using Cons.prems(3) by simp
    then obtain exc where "groq_reply e text (groq_calls st) = Raised exc" "\<not> is_throttle exc"
      by (rule hard_errorE)
    then have "dric_attempts e text digest (a # as) st = dric_failed digest (groq_sent e text st)"
      by (simp add: dric_step del: dric_attempts.simps)
    then show ?thesis using 0 by (simp add: dric_failed_fields groq_sent_fields del: dric_attempts.simps)
  next
    case (Suc j')
    have "throttled (groq_reply e text (groq_calls st + 0))" using Cons.prems(2) Suc by blast
    then obtain exc where "groq_reply e text (groq_calls st) = Raised exc" "is_throttle exc"
      by (auto elim: throttledE)
    then have step: "dric_attempts e text digest (a # as) st =
        dric_attempts e text digest as (sleep_backoff (3 / 2 * of_int a) (groq_sent e text st))"
      by (simp add: dric_step del: dric_attempts.simps)
    let ?st3 = "sleep_backoff (3 / 2 * of_int a) (groq_sent e text st)"
    have c3: "groq_calls ?st3 = Suc (groq_calls st)" by (simp add: sleep_backoff_fields groq_sent_fields)
    have p1: "j' \<le> length as" using Cons.prems(1) Suc by simp
    have p2: "\<forall>k<j'. throttled (groq_reply e text (groq_calls ?st3 + k))"
    proof (intro allI impI)
      fix k assume "k < j'"
      then have "Suc k < j" using Suc by simp
      then have "throttled (groq_reply e text (groq_calls st + Suc k))" using Cons.prems(2) by blast
      then show "throttled (groq_reply e text (groq_calls ?st3 + k))" by (simp add: sleep_backoff_fields groq_sent_fields)
    qed
    have p3: "j' = length as \<or> hard_error (groq_reply e text (groq_calls ?st3 + j'))"
      using Cons.prems(3) Suc by (simp add: sleep_backoff_fields groq_sent_fields)
    from Cons.IH [OF p1 p2 p3] show ?thesis
      unfolding step using Suc by (simp add: sleep_backoff_fields groq_sent_fields)
  qed
qed

lemma dric_attempts_success:
  assumes "j < length as"
    and "\<forall>k<j. throttled (groq_reply e text (groq_calls st + k))"
    and "groq_reply e text (groq_calls st + j) = Replied content"
  shows "fst (dric_attempts e text digest as st) = parse_answer content
       \<and> DRIC_CACHE (snd (dric_attempts e text digest as st)) = (DRIC_CACHE st)(digest \<mapsto> parse_answer content)
       \<and> groq_calls (snd (dric_attempts e text digest as st)) = groq_calls st + Suc j
       \<and> backoffs (trace (snd (dric_attempts e text digest as st))) =
           backoffs (trace st) @ map (\<lambda>a. 3 / 2 * of_int a) (take j as)"
  using assms
proof (induction as arbitrary: st j)
  case Nil
  then show ?case by simp
next
  case (Cons a as)
  show ?case
  proof (cases j)
    case 0
    then have "groq_reply e text (groq_calls st) = Replied content" using Cons.prems(3) by simp
    then have "dric_attempts e text digest (a # as) st =
      (parse_answer content, (groq_sent e text st)\<lparr>DRIC_CACHE := (DRIC_CACHE (groq_sent e text st))(digest \<mapsto> parse_answer content)\<rparr>)"
      by (simp add: dric_step del: dric_attempts.simps)
    then show ?thesis using 0 by (simp add: groq_sent_fields del: dric_attempts.simps)
  next
    case (Suc j')
    have "throttled (groq_reply e text (groq_calls st + 0))" using Cons.prems(2) Suc by blast
    then obtain exc where "groq_reply e text (groq_calls st) = Raised exc" "is_throttle exc"
      by (auto elim: throttledE)
    then have step: "dric_attempts e text digest (a # as) st =
        dric_attempts e text digest as (sleep_backoff (3 / 2 * of_int a) (groq_sent e text st))"
      by (simp add: dric_step del: dric_attempts.simps)
    let ?st3 = "sleep_backoff (3 / 2 * of_int a) (groq_sent e text st)"
    have c3: "groq_calls ?st3 = Suc (groq_calls st)" by (simp add: sleep_backoff_fields groq_sent_fields)
    have p1: "j' < length as" using Cons.prems(1) Suc by simp
    have p2: "\<forall>k<j'. throttled (groq_reply e text (groq_calls ?st3 + k))"
    proof (intro allI impI)
      fix k assume "k < j'"
      then have "Suc k < j" using Suc by simp
      then have "throttled (groq_reply e text (groq_calls st + Suc k))" using Cons.prems(2) by blast
      then show "throttled (groq_reply e text (groq_calls ?st3 + k))" by (simp add: sleep_backoff_fields groq_sent_fields)
    qed
    have p3: "groq_reply e text (groq_calls ?st3 + j') = Replied content"
      using Cons.prems(3) Suc by (simp add: sleep_backoff_fields groq_sent_fields)
    from Cons.IH [OF p1 p2 p3] show ?thesis
      unfolding step using Suc by (simp add: sleep_backoff_fields groq_sent_fields)
  qed
qed

lemma take_upto: "j \<le> nat m \<Longrightarrow> take j [1..m] = [1..int j]"
  by (simp add: list_eq_iff_nth_eq min_def)

lemma crawl_attempts_others:
  "LAST_FIRECRAWL_CALL (snd (crawl_attempts e url as st)) = LAST_FIRECRAWL_CALL st
   \<and> LAST_GROQ_CALL (snd (crawl_attempts e url as st)) = LAST_GROQ_CALL st
   \<and> DRIC_CACHE (snd (crawl_attempts e url as st)) = DRIC_CACHE st
   \<and> groq_calls (snd (crawl_attempts e url as st)) = groq_calls st
   \<and> (\<forall>u. u \<noteq> url \<longrightarrow> ARTICLE_CACHE (snd (crawl_attempts e url as st)) u = ARTICLE_CACHE st u)"
proof (induction as arbitrary: st)
  case Nil
  show ?case by (simp add: crawl_failed_fields)
next
  case (Cons a as)
  show ?case
  proof (cases "fc_reply e url (fc_calls st)")
    case (Replied result)
    then show ?thesis
      by (simp add: crawl_step fc_sent_fields del: crawl_attempts.simps)
  next
    case (Raised exc)
    show ?thesis
    proof (cases "is_throttle exc")
      case True
      then show ?thesis
        using Raised Cons.IH [of "sleep_backoff (FIRECRAWL_MIN_INTERVAL * of_int a) (fc_sent e url st)"]
        by (simp add: crawl_step fc_sent_fields sleep_backoff_fields del: crawl_attempts.simps)
    next
      case False
      then show ?thesis
        using Raised
        by (simp add: crawl_step fc_sent_fields crawl_failed_fields del: crawl_attempts.simps)
    qed
  qed
qed

lemma dric_attempts_others:
  "LAST_FIRECRAWL_CALL (snd (dric_attempts e text digest as st)) = LAST_FIRECRAWL_CALL st
   \<and> ARTICLE_CACHE (snd (dric_attempts e text digest as st)) = ARTICLE_CACHE st
   \<and> fc_calls (snd (dric_attempts e text digest as st)) = fc_calls st
   \<and> (fst (dric_attempts e text digest as st) = ''YES'' \<or> fst (dric_attempts e text digest as st) = ''NO'')
   \<and> DRIC_CACHE (snd (dric_attempts e text digest as st)) =
       (DRIC_CACHE st)(digest \<mapsto> fst (dric_attempts e text digest as st))"
proof (induction as arbitrary: st)
  case Nil
  show ?case by (simp add: dric_failed_fields)
next
  case (Cons a as)
  show ?case
  proof (cases "groq_reply e text (groq_calls st)")
    case (Replied content)
    then show ?thesis
      by (simp add: dric_step groq_sent_fields parse_answer_def Let_def del: dric_attempts.simps)
  next
    case (Raised exc)
    show ?thesis
    proof (cases "is_throttle exc")
      case True
      then show ?thesis
        using Raised Cons.IH [of "sleep_backoff (3 / 2 * of_int a) (groq_sent e text st)"]
        by (simp add: dric_step groq_sent_fields sleep_backoff_fields del: dric_attempts.simps)
    next
      case False
      then show ?thesis
        using Raised
        by (simp add: dric_step groq_sent_fields dric_failed_fields del: dric_attempts.simps)
    qed
  qed
qed

lemma crawl_article_hit: "ARTICLE_CACHE st url = Some v \<Longrightarrow> crawl_article e url n st = (v, st)"
  by (simp add: crawl_article_def)

lemma ask_dric_hit:
  "text \<noteq> [] \<Longrightarrow> DRIC_CACHE st (sha256_hexdigest e text) = Some v \<Longrightarrow> ask_dric e text n st = (v, st)"
  by (simp add: ask_dric_def)

lemma crawl_article_keeps:
  "(ARTICLE_CACHE st u = Some v \<longrightarrow> ARTICLE_CACHE (snd (crawl_article e url n st)) u = Some v)
   \<and> DRIC_CACHE (snd (crawl_article e url n st)) = DRIC_CACHE st
   \<and> LAST_FIRECRAWL_CALL (snd (crawl_article e url n st)) = LAST_FIRECRAWL_CALL st"
proof (cases "ARTICLE_CACHE st url")
  case None
  then have neq: "ARTICLE_CACHE st u = Some v \<Longrightarrow> u \<noteq> url" by auto
  show ?thesis
    using None crawl_attempts_others [of e url "[1..n]" st] neq
    by (simp add: crawl_article_def)
next
  case (Some t)
  then show ?thesis by (simp add: crawl_article_def)
qed

lemma ask_dric_keeps:
  "(DRIC_CACHE st d = Some v \<longrightarrow> DRIC_CACHE (snd (ask_dric e text n st)) d = Some v)
   \<and> ARTICLE_CACHE (snd (ask_dric e text n st)) = ARTICLE_CACHE st
   \<and> LAST_FIRECRAWL_CALL (snd (ask_dric e text n st)) = LAST_FIRECRAWL_CALL st"
proof (cases "text = [] \<or> DRIC_CACHE st (sha256_hexdigest e text) \<noteq> None")
  case True
  then show ?thesis by (auto simp: ask_dric_def)
next
  case False
  then have neq: "DRIC_CACHE st d = Some v \<Longrightarrow> d \<noteq> sha256_hexdigest e text" by auto
  show ?thesis
    using False dric_attempts_others [of e "text" "sha256_hexdigest e text" "[1..n]" st] neq
    by (simp add: ask_dric_def)
qed

lemma process_row_keeps:
  "(ARTICLE_CACHE st u = Some v \<longrightarrow> ARTICLE_CACHE (snd (process_row e row st)) u = Some v)
   \<and> (DRIC_CACHE st d = Some w \<longrightarrow> DRIC_CACHE (snd (process_row e row st)) d = Some w)"
proof (cases "extract_article_url e (scholar_link row)")
  case None
  then show ?thesis by (simp add: process_row_def)
next
  case (Some url)
  show ?thesis
  proof (cases "url = []")
    case True
    then show ?thesis using Some by (simp add: process_row_def)
  next
    case False
    obtain t st1 where c: "crawl_article e url 3 st = (t, st1)" by (cases "crawl_article e url 3 st")
    have k1: "(ARTICLE_CACHE st u = Some v \<longrightarrow> ARTICLE_CACHE st1 u = Some v) \<and> DRIC_CACHE st1 = DRIC_CACHE st"
      using crawl_article_keeps [of st u v e url 3] c by simp
    obtain a st2 where k: "ask_dric e t 4 st1 = (a, st2)" by (cases "ask_dric e t 4 st1")
    have k2: "(DRIC_CACHE st1 d = Some w \<longrightarrow> DRIC_CACHE st2 d = Some w) \<and> ARTICLE_CACHE st2 = ARTICLE_CACHE st1"
      using ask_dric_keeps [of st1 d w e t 4] k by simp
    show ?thesis using Some False c k k1 k2 by (simp add: process_row_def)
  qed
qed

lemma process_rows_keeps:
  "(ARTICLE_CACHE st u = Some v \<longrightarrow> ARTICLE_CACHE (snd (process_rows e rows st)) u = Some v)
   \<and> (DRIC_CACHE st d = Some w \<longrightarrow> DRIC_CACHE (snd (process_rows e rows st)) d = Some w)"
proof (induction rows arbitrary: st)
  case Nil
  show ?case by simp
next
  case (Cons row rows)
  obtain r st1 where p: "process_row e row st = (r, st1)" by (cases "process_row e row st")
  obtain rs st2 where q: "process_rows e rows st1 = (rs, st2)" by (cases "process_rows e rows st1")
  show ?case
    using process_row_keeps [of st u v e row d w] Cons.IH [of st1] p q by simp
qed

lemma labels_only_update:
  "labels_only st \<Longrightarrow> a = ''YES'' \<or> a = ''NO'' \<Longrightarrow> DRIC_CACHE st' = (DRIC_CACHE st)(d \<mapsto> a) \<Longrightarrow>
   labels_only st'"
  by (auto simp: labels_only_def ran_def split: if_splits)

lemma ask_dric_labels:
  assumes "labels_only st"
  shows "(fst (ask_dric e text n st) = ''YES'' \<or> fst (ask_dric e text n st) = ''NO'')
         \<and> labels_only (snd (ask_dric e text n st))"
proof (cases "text = []")
  case True
  then show ?thesis using assms by (simp add: ask_dric_def)
next
  case False
  show ?thesis
  proof (cases "DRIC_CACHE st (sha256_hexdigest e text)")
    case None
    let ?R = "dric_attempts e text (sha256_hexdigest e text) [1..n] st"
    have eq: "ask_dric e text n st = ?R" using False None by (simp add: ask_dric_def)
    have o: "(fst ?R = ''YES'' \<or> fst ?R = ''NO'')
       \<and> DRIC_CACHE (snd ?R) = (DRIC_CACHE st)(sha256_hexdigest e text \<mapsto> fst ?R)"
      using dric_attempts_others [of e "text" "sha256_hexdigest e text" "[1..n]" st] by simp
    then have "labels_only (snd ?R)" using assms labels_only_update by blast
    then show ?thesis using o eq by simp
  next
    case (Some v)
    then have "v \<in> ran (DRIC_CACHE st)" by (auto simp: ran_def)
    then have "v = ''YES'' \<or> v = ''NO''" using assms by (simp add: labels_only_def)
    then show ?thesis using False Some assms by (simp add: ask_dric_def)
  qed
qed


lemma sent_at_0: "sent_at start dur backoff 0 = start"
  by (simp add: sent_at_def)

lemma sent_at_Suc:
  "sent_at start dur backoff (Suc k) =
     sent_at (start + dur 0 + backoff 0) (\<lambda>i. dur (Suc i)) (\<lambda>i. backoff (Suc i)) k"
  by (simp add: sent_at_def sum.lessThan_Suc_shift comp_def del: sum.lessThan_Suc)

lemma retry_events_0: "retry_events request start dur backoff 0 = []"
  by (simp add: retry_events_def)

lemma retry_events_Suc:
  "retry_events request start dur backoff (Suc j) =
     [request start, Backoff (backoff 0)]
     @ retry_events request (start + dur 0 + backoff 0) (\<lambda>i. dur (Suc i)) (\<lambda>i. backoff (Suc i)) j"
proof -
  have "[0..<Suc j] = 0 # [Suc 0..<Suc j]" by (rule upt_conv_Cons) simp
  then have u: "[0..<Suc j] = 0 # map Suc [0..<j]" by (simp only: map_Suc_upt)
  show ?thesis
    unfolding retry_events_def u
    by (simp add: sent_at_0 sent_at_Suc comp_def)
qed

lemma sent_at_cong:
  "(\<And>i. i < k \<Longrightarrow> dur i = dur' i) \<Longrightarrow> (\<And>i. i < k \<Longrightarrow> backoff i = backoff' i) \<Longrightarrow>
   sent_at start dur backoff k = sent_at start dur' backoff' k"
  by (simp add: sent_at_def)

lemma retry_events_cong:
  assumes "\<And>i. i < j \<Longrightarrow> dur i = dur' i" and "\<And>i. i < j \<Longrightarrow> backoff i = backoff' i"
  shows "retry_events request start dur backoff j = retry_events request start dur' backoff' j"
proof -
  have "sent_at start dur backoff k = sent_at start dur' backoff' k" if "k < j" for k
    using that assms by (intro sent_at_cong) simp_all
  then have "map (\<lambda>k. [request (sent_at start dur backoff k), Backoff (backoff k)]) [0..<j] =
             map (\<lambda>k. [request (sent_at start dur' backoff' k), Backoff (backoff' k)]) [0..<j]"
    using assms(2) by (intro map_cong) simp_all
  then show ?thesis unfolding retry_events_def by (rule arg_cong)
qed

lemma fc_ready_wait: "fc_ready st \<Longrightarrow> firecrawl_wait st = st"
  by (simp add: fc_ready_def firecrawl_wait_def Let_def split: option.splits)

lemma fc_ready_after_wait: "fc_ready (firecrawl_wait st)"
  by (simp add: fc_ready_def firecrawl_wait_def sleep_rate_def Let_def split: option.splits)

lemma fc_sent_time:
  assumes "fc_ready st"
  shows "clock (fc_sent e url st) = clock st + fc_duration e url (fc_calls st)"
    and "trace (fc_sent e url st) =
           trace st @ [Fc_request url (\<not> endswith (lower url) ''.pdf'') (clock st)]"
  using fc_ready_wait [OF assms]
  by (simp_all add: fc_sent_def firecrawl_request_def fc_duration_def Let_def)

lemma sleep_backoff_time:
  "clock (sleep_backoff d st) = clock st + d"
  "trace (sleep_backoff d st) = trace st @ [Backoff d]"
  by (simp_all add: sleep_backoff_def)

lemma fc_ready_next:
  assumes "fc_ready st" and "0 \<le> fc_duration e url (fc_calls st)" and "0 \<le> b"
  shows "fc_ready (sleep_backoff b (fc_sent e url st))"
  using assms
  by (simp add: fc_ready_def sleep_backoff_fields fc_sent_fields sleep_backoff_time
      fc_sent_time [OF assms(1)] split: option.splits)

lemma crawl_failed_time:
  "clock (snd (crawl_failed url st)) = clock st"
  "trace (snd (crawl_failed url st)) = trace st"
  by (simp_all add: crawl_failed_def)

lemma not_throttledE:
  assumes "\<not> throttled r"
  obtains result where "r = Replied result" | "hard_error r"
  using assms by (cases r) (simp_all add: throttled_def hard_error_def)

lemma crawl_attempts_timeline:
  assumes "fc_ready st"
    and "\<forall>k. 0 \<le> fc_duration e url k"
    and "\<forall>a\<in>set as. 0 \<le> a"
    and "j \<le> length as"
    and "\<forall>k<j. throttled (fc_reply e url (fc_calls st + k))"
    and "j = length as \<or> \<not> throttled (fc_reply e url (fc_calls st + j))"
  shows "clock (snd (crawl_attempts e url as st)) =
           sent_at (clock st) (\<lambda>i. fc_duration e url (fc_calls st + i))
             (\<lambda>i. FIRECRAWL_MIN_INTERVAL * of_int (as ! i)) j
           + (if j = length as then 0 else fc_duration e url (fc_calls st + j))
       \<and> trace (snd (crawl_attempts e url as st)) =
           trace st
           @ retry_events (Fc_request url (\<not> endswith (lower url) ''.pdf'')) (clock st)
               (\<lambda>i. fc_duration e url (fc_calls st + i))
               (\<lambda>i. FIRECRAWL_MIN_INTERVAL * of_int (as ! i)) j
           @ (if j = length as then []
              else [Fc_request url (\<not> endswith (lower url) ''.pdf'')
                      (sent_at (clock st) (\<lambda>i. fc_duration e url (fc_calls st + i))
                         (\<lambda>i. FIRECRAWL_MIN_INTERVAL * of_int (as ! i)) j)])"
  using assms
proof (induction as arbitrary: st j)
  case Nil
  then show ?case by (simp add: crawl_failed_time sent_at_0 retry_events_0)
next
  case (Cons a as)
  note ready = Cons.prems(1)
  show ?case
  proof (cases j)
    case 0
    then have nt: "\<not> throttled (fc_reply e url (fc_calls st))" using Cons.prems(6) by simp
    from nt show ?thesis
    proof (cases rule: not_throttledE)
      case (1 result)
      then have "crawl_attempts e url (a # as) st =
        (fc_text result, (fc_sent e url st)\<lparr>ARTICLE_CACHE := (ARTICLE_CACHE (fc_sent e url st))(url \<mapsto> fc_text result)\<rparr>)"
        by (simp add: crawl_step del: crawl_attempts.simps)
      then show ?thesis
        using 0 by (simp add: fc_sent_time [OF ready] sent_at_0 retry_events_0 del: crawl_attempts.simps)
    next
      case 2
      then obtain exc where "fc_reply e url (fc_calls st) = Raised exc" "\<not> is_throttle exc"
        by (rule hard_errorE)
      then have "crawl_attempts e url (a # as) st = crawl_failed url (fc_sent e url st)"
        by (simp add: crawl_step del: crawl_attempts.simps)
      then show ?thesis
        using 0 by (simp add: crawl_failed_time fc_sent_time [OF ready] sent_at_0 retry_events_0
            del: crawl_attempts.simps)
    qed
  next
    case (Suc j')
    have "throttled (fc_reply e url (fc_calls st + 0))" using Cons.prems(5) Suc by blast
    then obtain exc where "fc_reply e url (fc_calls st) = Raised exc" "is_throttle exc"
      by (auto elim: throttledE)
    then have step: "crawl_attempts e url (a # as) st =
        crawl_attempts e url as (sleep_backoff (FIRECRAWL_MIN_INTERVAL * of_int a) (fc_sent e url st))"
      by (simp add: crawl_step del: crawl_attempts.simps)
    let ?st3 = "sleep_backoff (FIRECRAWL_MIN_INTERVAL * of_int a) (fc_sent e url st)"
    have a0: "(0::rat) \<le> FIRECRAWL_MIN_INTERVAL * of_int a"
      using Cons.prems(3) by (simp add: FIRECRAWL_MIN_INTERVAL_def)
    have p0: "fc_ready ?st3"
      using ready Cons.prems(2) a0 by (intro fc_ready_next) simp_all
    have p2: "\<forall>a\<in>set as. 0 \<le> a" using Cons.prems(3) by simp
    have p3: "j' \<le> length as" using Cons.prems(4) Suc by simp
    have p4: "\<forall>k<j'. throttled (fc_reply e url (fc_calls ?st3 + k))"
    proof (intro allI impI)
      fix k assume "k < j'"
      then have "Suc k < j" using Suc by simp
      then have "throttled (fc_reply e url (fc_calls st + Suc k))" using Cons.prems(5) by blast
      then show "throttled (fc_reply e url (fc_calls ?st3 + k))" by (simp add: sleep_backoff_fields fc_sent_fields)
    qed
    have p5: "j' = length as \<or> \<not> throttled (fc_reply e url (fc_calls ?st3 + j'))"
      using Cons.prems(6) Suc by (simp add: sleep_backoff_fields fc_sent_fields)
    have c3: "clock ?st3 = clock st + fc_duration e url (fc_calls st + 0) + FIRECRAWL_MIN_INTERVAL * of_int ((a # as) ! 0)"
      by (simp add: sleep_backoff_time fc_sent_time [OF ready])
    have t3: "trace ?st3 = trace st @ [Fc_request url (\<not> endswith (lower url) ''.pdf'') (clock st),
                Backoff (FIRECRAWL_MIN_INTERVAL * of_int ((a # as) ! 0))]"
      by (simp add: sleep_backoff_time fc_sent_time [OF ready])
    have n3: "fc_calls ?st3 = Suc (fc_calls st)" by (simp add: sleep_backoff_fields fc_sent_fields)
    have d3: "(\<lambda>i. fc_duration e url (fc_calls ?st3 + i)) = (\<lambda>i. fc_duration e url (fc_calls st + Suc i))"
      by (simp add: n3)
    have b3: "(\<lambda>i. FIRECRAWL_MIN_INTERVAL * of_int (as ! i)) =
              (\<lambda>i. FIRECRAWL_MIN_INTERVAL * rat_of_int ((a # as) ! Suc i))"
      by simp
    have e3: "fc_duration e url (fc_calls ?st3 + j') = fc_duration e url (fc_calls st + Suc j')"
      by (simp add: n3)
    note IH = Cons.IH [OF p0 Cons.prems(2) p2 p3 p4 p5, unfolded d3 b3 e3 c3 t3]
    show ?thesis
      unfolding step Suc
        sent_at_Suc [of "clock st" "\<lambda>i. fc_duration e url (fc_calls st + i)"
          "\<lambda>i. FIRECRAWL_MIN_INTERVAL * of_int ((a # as) ! i)" j']
        retry_events_Suc [of _ "clock st" "\<lambda>i. fc_duration e url (fc_calls st + i)"
          "\<lambda>i. FIRECRAWL_MIN_INTERVAL * of_int ((a # as) ! i)" j']
      using IH by simp
  qed
qed


lemma groq_ready_wait: "groq_ready st \<Longrightarrow> groq_wait st = st"
  by (simp add: groq_ready_def groq_wait_def Let_def split: option.splits)

lemma groq_ready_after_wait: "groq_ready (groq_wait st)"
  by (simp add: groq_ready_def groq_wait_def sleep_rate_def Let_def split: option.splits)

lemma groq_sent_time:
  assumes "groq_ready st"
  shows "clock (groq_sent e text st) = clock st + groq_duration e text (groq_calls st)"
    and "trace (groq_sent e text st) = trace st @ [Groq_request (PROMPT_TEMPLATE text) (clock st)]"
    and "LAST_GROQ_CALL (groq_sent e text st) = Some (clock st)"
  using groq_ready_wait [OF assms]
  by (simp_all add: groq_sent_def groq_request_def groq_duration_def Let_def)

lemma groq_ready_next:
  assumes "groq_ready st" and "0 \<le> groq_duration e text (groq_calls st)" and "1 \<le> a"
  shows "groq_ready (sleep_backoff (3 / 2 * of_int a) (groq_sent e text st))"
proof -
  have "(1::rat) \<le> of_int a" using assms(3) by simp
  then have "(1::rat) \<le> groq_duration e text (groq_calls st) + 3 / 2 * of_int a"
    using assms(2) by simp
  then show ?thesis
    by (simp add: groq_ready_def sleep_backoff_fields sleep_backoff_time
        groq_sent_time [OF assms(1)] GROQ_MIN_INTERVAL_def)
qed

lemma dric_failed_time:
  "clock (snd (dric_failed digest st)) = clock st"
  "trace (snd (dric_failed digest st)) = trace st"
  by (simp_all add: dric_failed_def)

lemma dric_attempts_timeline:
  assumes "groq_ready st"
    and "\<forall>k. 0 \<le> groq_duration e text k"
    and "\<forall>a\<in>set as. 1 \<le> a"
    and "j \<le> length as"
    and "\<forall>k<j. throttled (groq_reply e text (groq_calls st + k))"
    and "j = length as \<or> \<not> throttled (groq_reply e text (groq_calls st + j))"
  shows "clock (snd (dric_attempts e text digest as st)) =
           sent_at (clock st) (\<lambda>i. groq_duration e text (groq_calls st + i))
             (\<lambda>i. 3 / 2 * of_int (as ! i)) j
           + (if j = length as then 0 else groq_duration e text (groq_calls st + j))
       \<and> trace (snd (dric_attempts e text digest as st)) =
           trace st
           @ retry_events (Groq_request (PROMPT_TEMPLATE text)) (clock st)
               (\<lambda>i. groq_duration e text (groq_calls st + i))
               (\<lambda>i. 3 / 2 * of_int (as ! i)) j
           @ (if j = length as then []
              else [Groq_request (PROMPT_TEMPLATE text)
                      (sent_at (clock st) (\<lambda>i. groq_duration e text (groq_calls st + i))
                         (\<lambda>i. 3 / 2 * of_int (as ! i)) j)])"
  using assms
proof (induction as arbitrary: st j)
  case Nil
  then show ?case by (simp add: dric_failed_time sent_at_0 retry_events_0)
next
  case (Cons a as)
  note ready = Cons.prems(1)
  show ?case
  proof (cases j)
    case 0
    then have nt: "\<not> throttled (groq_reply e text (groq_calls st))" using Cons.prems(6) by simp
    from nt show ?thesis
    proof (cases rule: not_throttledE)
      case (1 content)
      then have "dric_attempts e text digest (a # as) st =
        (parse_answer content, (groq_sent e text st)\<lparr>DRIC_CACHE := (DRIC_CACHE (groq_sent e text st))(digest \<mapsto> parse_answer content)\<rparr>)"
        by (simp add: dric_step del: dric_attempts.simps)
      then show ?thesis
        using 0 by (simp add: groq_sent_time [OF ready] sent_at_0 retry_events_0 del: dric_attempts.simps)
    next
      case 2
      then obtain exc where "groq_reply e text (groq_calls st) = Raised exc" "\<not> is_throttle exc"
        by (rule hard_errorE)
      then have "dric_attempts e text digest (a # as) st = dric_failed digest (groq_sent e text st)"
        by (simp add: dric_step del: dric_attempts.simps)
      then show ?thesis
        using 0 by (simp add: dric_failed_time groq_sent_time [OF ready] sent_at_0 retry_events_0
            del: dric_attempts.simps)
    qed
  next
    case (Suc j')
    have "throttled (groq_reply e text (groq_calls st + 0))" using Cons.prems(5) Suc by blast
    then obtain exc where "groq_reply e text (groq_calls st) = Raised exc" "is_throttle exc"
      by (auto elim: throttledE)
    then have step: "dric_attempts e text digest (a # as) st =
        dric_attempts e text digest as (sleep_backoff (3 / 2 * of_int a) (groq_sent e text st))"
      by (simp add: dric_step del: dric_attempts.simps)
    let ?st3 = "sleep_backoff (3 / 2 * of_int a) (groq_sent e text st)"
    have a1: "1 \<le> a" using Cons.prems(3) by simp
    have p0: "groq_ready ?st3"
      using ready Cons.prems(2) a1 by (intro groq_ready_next) simp_all
    have p2: "\<forall>a\<in>set as. 1 \<le> a" using Cons.prems(3) by simp
    have p3: "j' \<le> length as" using Cons.prems(4) Suc by simp
    have p4: "\<forall>k<j'. throttled (groq_reply e text (groq_calls ?st3 + k))"
    proof (intro allI impI)
      fix k assume "k < j'"
      then have "Suc k < j" using Suc by simp
      then have "throttled (groq_reply e text (groq_calls st + Suc k))" using Cons.prems(5) by blast
      then show "throttled (groq_reply e text (groq_calls ?st3 + k))" by (simp add: sleep_backoff_fields groq_sent_fields)
    qed
    have p5: "j' = length as \<or> \<not> throttled (groq_reply e text (groq_calls ?st3 + j'))"
      using Cons.prems(6) Suc by (simp add: sleep_backoff_fields groq_sent_fields)
    have c3: "clock ?st3 = clock st + groq_duration e text (groq_calls st + 0) + 3 / 2 * of_int ((a # as) ! 0)"
      by (simp add: sleep_backoff_time groq_sent_time [OF ready])
    have t3: "trace ?st3 = trace st @ [Groq_request (PROMPT_TEMPLATE text) (clock st),
                Backoff (3 / 2 * of_int ((a # as) ! 0))]"
      by (simp add: sleep_backoff_time groq_sent_time [OF ready])
    have n3: "groq_calls ?st3 = Suc (groq_calls st)" by (simp add: sleep_backoff_fields groq_sent_fields)
    have d3: "(\<lambda>i. groq_duration e text (groq_calls ?st3 + i)) = (\<lambda>i. groq_duration e text (groq_calls st + Suc i))"
      unfolding n3 by simp
    have b3: "(\<lambda>i. 3 / 2 * rat_of_int (as ! i)) = (\<lambda>i. 3 / 2 * rat_of_int ((a # as) ! Suc i))"
      by simp
    have e3: "groq_duration e text (groq_calls ?st3 + j') = groq_duration e text (groq_calls st + Suc j')"
      unfolding n3 by simp
    note IH = Cons.IH [OF p0 Cons.prems(2) p2 p3 p4 p5, unfolded d3 b3 e3 c3 t3]
    show ?thesis
      unfolding step Suc
        sent_at_Suc [of "clock st" "\<lambda>i. groq_duration e text (groq_calls st + i)"
          "\<lambda>i. 3 / 2 * of_int ((a # as) ! i)" j']
        retry_events_Suc [of _ "clock st" "\<lambda>i. groq_duration e text (groq_calls st + i)"
          "\<lambda>i. 3 / 2 * of_int ((a # as) ! i)" j']
      using IH by simp
  qed
qed

lemma crawl_attempts_waited:
  "crawl_attempts e url (a # as) (firecrawl_wait st) = crawl_attempts e url (a # as) st"
  by (simp add: fc_ready_wait [OF fc_ready_after_wait])

lemma dric_attempts_waited:
  "dric_attempts e text digest (a # as) (groq_wait st) = dric_attempts e text digest (a # as) st"
  by (simp add: groq_ready_wait [OF groq_ready_after_wait])


section \<open>The fetch and classify pipeline: claims\<close>

lemma services_replies:
  "fc_reply (services fc groq) url k = fc"
  "groq_reply (services fc groq) text k = groq"
  by (simp_all add: fc_reply_def groq_reply_def services_def)

lemma throttling_replies:
  "throttled (fc_reply throttling_services url k)"
  "throttled (groq_reply throttling_services text k)"
  by (simp_all add: throttling_services_def services_replies throttled_def is_throttle_def
      lower_def lower_char_def)

lemma failing_replies:
  "hard_error (fc_reply failing_services url k)"
  "hard_error (groq_reply failing_services text k)"
  by (simp_all add: failing_services_def services_replies hard_error_def is_throttle_def
      lower_def lower_char_def)

lemma answering_replies:
  "fc_reply answering_services url k = Replied (Fc_dict (Some ''Funded by DRIC.'') None)"
  "groq_reply answering_services text k = Replied (Some '' yes, it does'')"
  by (simp_all add: answering_services_def services_replies)

lemma services_digest:
  "sha256_hexdigest throttling_services text = text"
  "sha256_hexdigest failing_services text = text"
  "sha256_hexdigest answering_services text = text"
  by (simp_all add: throttling_services_def failing_services_def answering_services_def services_def)

lemma initial_fields:
  "ARTICLE_CACHE initial_state = Map.empty"
  "DRIC_CACHE initial_state = Map.empty"
  "LAST_FIRECRAWL_CALL initial_state = None"
  "LAST_GROQ_CALL initial_state = None"
  "clock initial_state = 0"
  "fc_calls initial_state = 0"
  "groq_calls initial_state = 0"
  "trace initial_state = []"
  by (simp_all add: initial_state_def)

lemma crawl_article_retry:
  assumes fc_miss: "ARTICLE_CACHE st url = None"
    and fc_max: "0 < max_retries"
    and fc_dur: "\<forall>k. 0 \<le> fc_duration e url k"
    and fc_j: "j \<le> nat max_retries"
    and fc_thr: "\<forall>k<j. throttled (fc_reply e url (fc_calls st + k))"
    and fc_end: "j = nat max_retries \<or> \<not> throttled (fc_reply e url (fc_calls st + j))"
  shows "fst (crawl_article e url max_retries st) =
           (if j = nat max_retries then []
            else case fc_reply e url (fc_calls st + j) of
                   Replied result \<Rightarrow> fc_text result | Raised exc \<Rightarrow> [])"
    and "ARTICLE_CACHE (snd (crawl_article e url max_retries st)) url =
           Some (fst (crawl_article e url max_retries st))"
    and "fc_calls (snd (crawl_article e url max_retries st)) =
           fc_calls st + (if j = nat max_retries then j else Suc j)"
    and "backoffs (trace (snd (crawl_article e url max_retries st))) =
           backoffs (trace st) @ map (\<lambda>attempt. 2 * of_int attempt) [1..int j]"
    and "trace (snd (crawl_article e url max_retries st)) =
           trace (firecrawl_wait st)
           @ retry_events (Fc_request url (\<not> endswith (lower url) ''.pdf''))
               (clock (firecrawl_wait st)) (\<lambda>k. fc_duration e url (fc_calls st + k))
               (\<lambda>k. 2 * of_nat (Suc k)) j
           @ (if j = nat max_retries then []
              else [Fc_request url (\<not> endswith (lower url) ''.pdf'')
                      (sent_at (clock (firecrawl_wait st)) (\<lambda>k. fc_duration e url (fc_calls st + k))
                         (\<lambda>k. 2 * of_nat (Suc k)) j)])"
    and "clock (snd (crawl_article e url max_retries st)) =
           sent_at (clock (firecrawl_wait st)) (\<lambda>k. fc_duration e url (fc_calls st + k))
             (\<lambda>k. 2 * of_nat (Suc k)) j
           + (if j = nat max_retries then 0 else fc_duration e url (fc_calls st + j))"
proof -
  let ?as = "[1..max_retries]"
  let ?R = "crawl_attempts e url ?as st"
  let ?W = "firecrawl_wait st"
  have c: "crawl_article e url max_retries st = ?R"
    using fc_miss by (simp add: crawl_article_def)
  have lj: "j \<le> length ?as" using fc_j by simp
  have len: "length ?as = nat max_retries" by simp
  have basic: "fst ?R = (if j = nat max_retries then []
            else case fc_reply e url (fc_calls st + j) of
                   Replied result \<Rightarrow> fc_text result | Raised exc \<Rightarrow> [])
       \<and> ARTICLE_CACHE (snd ?R) = (ARTICLE_CACHE st)(url \<mapsto> fst ?R)
       \<and> fc_calls (snd ?R) = fc_calls st + (if j = nat max_retries then j else Suc j)
       \<and> backoffs (trace (snd ?R)) =
           backoffs (trace st) @ map (\<lambda>a. FIRECRAWL_MIN_INTERVAL * of_int a) (take j ?as)"
  proof (cases "j = nat max_retries")
    case True
    then have "j = length ?as \<or> hard_error (fc_reply e url (fc_calls st + j))" by simp
    from crawl_attempts_fail [OF lj fc_thr this] True show ?thesis by simp
  next
    case False
    then have nt: "\<not> throttled (fc_reply e url (fc_calls st + j))" using fc_end by simp
    from nt show ?thesis
    proof (cases rule: not_throttledE)
      case (1 result)
      have "j < length ?as" using False fc_j by simp
      from crawl_attempts_success [OF this fc_thr 1] False 1 show ?thesis by simp
    next
      case 2
      then have h: "j = length ?as \<or> hard_error (fc_reply e url (fc_calls st + j))" by simp
      from 2 obtain exc where "fc_reply e url (fc_calls st + j) = Raised exc" by (rule hard_errorE)
      with crawl_attempts_fail [OF lj fc_thr h] False show ?thesis by simp
    qed
  qed
  obtain rest where ne: "?as = 1 # rest" using fc_max by (simp add: upto_rec1)
  have w: "?R = crawl_attempts e url ?as ?W"
    unfolding ne by (rule crawl_attempts_waited [symmetric])
  have pos: "\<forall>a\<in>set ?as. 0 \<le> a" by simp
  have thr: "\<forall>k<j. throttled (fc_reply e url (fc_calls ?W + k))"
    using fc_thr by (simp add: firecrawl_wait_fields)
  have ending: "j = length ?as \<or> \<not> throttled (fc_reply e url (fc_calls ?W + j))"
    using fc_end by (simp add: firecrawl_wait_fields)
  note T = crawl_attempts_timeline [OF fc_ready_after_wait fc_dur pos lj thr ending,
      unfolded firecrawl_wait_fields len, folded w]
  have b: "FIRECRAWL_MIN_INTERVAL * rat_of_int (?as ! i) = 2 * of_nat (Suc i)" if "i < j" for i
  proof -
    have "i < nat max_retries" using that fc_j by simp
    then have "?as ! i = int (Suc i)" by simp
    then show ?thesis by (simp add: FIRECRAWL_MIN_INTERVAL_def)
  qed
  have s: "sent_at (clock ?W) (\<lambda>i. fc_duration e url (fc_calls st + i))
             (\<lambda>i. FIRECRAWL_MIN_INTERVAL * rat_of_int (?as ! i)) j =
           sent_at (clock ?W) (\<lambda>k. fc_duration e url (fc_calls st + k)) (\<lambda>k. 2 * of_nat (Suc k)) j"
    by (rule sent_at_cong) (simp_all add: b)
  have r: "retry_events (Fc_request url (\<not> endswith (lower url) ''.pdf'')) (clock ?W)
             (\<lambda>i. fc_duration e url (fc_calls st + i))
             (\<lambda>i. FIRECRAWL_MIN_INTERVAL * rat_of_int (?as ! i)) j =
           retry_events (Fc_request url (\<not> endswith (lower url) ''.pdf'')) (clock ?W)
             (\<lambda>k. fc_duration e url (fc_calls st + k)) (\<lambda>k. 2 * of_nat (Suc k)) j"
    by (rule retry_events_cong) (simp_all add: b)
  show "fst (crawl_article e url max_retries st) =
           (if j = nat max_retries then []
            else case fc_reply e url (fc_calls st + j) of
                   Replied result \<Rightarrow> fc_text result | Raised exc \<Rightarrow> [])"
    unfolding c using basic by blast
  show "ARTICLE_CACHE (snd (crawl_article e url max_retries st)) url =
           Some (fst (crawl_article e url max_retries st))"
    unfolding c using basic by simp
  show "fc_calls (snd (crawl_article e url max_retries st)) =
           fc_calls st + (if j = nat max_retries then j else Suc j)"
    unfolding c using basic by blast
  show "backoffs (trace (snd (crawl_article e url max_retries st))) =
           backoffs (trace st) @ map (\<lambda>attempt. 2 * of_int attempt) [1..int j]"
    unfolding c using basic by (simp add: take_upto [OF fc_j] FIRECRAWL_MIN_INTERVAL_def)
  show "trace (snd (crawl_article e url max_retries st)) =
           trace (firecrawl_wait st)
           @ retry_events (Fc_request url (\<not> endswith (lower url) ''.pdf''))
               (clock (firecrawl_wait st)) (\<lambda>k. fc_duration e url (fc_calls st + k))
               (\<lambda>k. 2 * of_nat (Suc k)) j
           @ (if j = nat max_retries then []
              else [Fc_request url (\<not> endswith (lower url) ''.pdf'')
                      (sent_at (clock (firecrawl_wait st)) (\<lambda>k. fc_duration e url (fc_calls st + k))
                         (\<lambda>k. 2 * of_nat (Suc k)) j)])"
    unfolding c using T [unfolded s r] by blast
  show "clock (snd (crawl_article e url max_retries st)) =
           sent_at (clock (firecrawl_wait st)) (\<lambda>k. fc_duration e url (fc_calls st + k))
             (\<lambda>k. 2 * of_nat (Suc k)) j
           + (if j = nat max_retries then 0 else fc_duration e url (fc_calls st + j))"
    unfolding c using T [unfolded s r] by blast
qed


lemma ask_dric_retry:
  assumes gq_text: "text \<noteq> []"
    and gq_miss: "DRIC_CACHE st (sha256_hexdigest e text) = None"
    and gq_max: "0 < max_retries"
    and gq_dur: "\<forall>k. 0 \<le> groq_duration e text k"
    and gq_j: "j \<le> nat max_retries"
    and gq_thr: "\<forall>k<j. throttled (groq_reply e text (groq_calls st + k))"
    and gq_end: "j = nat max_retries \<or> \<not> throttled (groq_reply e text (groq_calls st + j))"
  shows "fst (ask_dric e text max_retries st) =
           (if j = nat max_retries then ''NO''
            else case groq_reply e text (groq_calls st + j) of
                   Replied content \<Rightarrow> parse_answer content | Raised exc \<Rightarrow> ''NO'')"
    and "DRIC_CACHE (snd (ask_dric e text max_retries st)) (sha256_hexdigest e text) =
           Some (fst (ask_dric e text max_retries st))"
    and "groq_calls (snd (ask_dric e text max_retries st)) =
           groq_calls st + (if j = nat max_retries then j else Suc j)"
    and "backoffs (trace (snd (ask_dric e text max_retries st))) =
           backoffs (trace st) @ map (\<lambda>attempt. 3 / 2 * of_int attempt) [1..int j]"
    and "trace (snd (ask_dric e text max_retries st)) =
           trace (groq_wait st)
           @ retry_events (Groq_request (PROMPT_TEMPLATE text))
               (clock (groq_wait st)) (\<lambda>k. groq_duration e text (groq_calls st + k))
               (\<lambda>k. 3 / 2 * of_nat (Suc k)) j
           @ (if j = nat max_retries then []
              else [Groq_request (PROMPT_TEMPLATE text)
                      (sent_at (clock (groq_wait st)) (\<lambda>k. groq_duration e text (groq_calls st + k))
                         (\<lambda>k. 3 / 2 * of_nat (Suc k)) j)])"
    and "clock (snd (ask_dric e text max_retries st)) =
           sent_at (clock (groq_wait st)) (\<lambda>k. groq_duration e text (groq_calls st + k))
             (\<lambda>k. 3 / 2 * of_nat (Suc k)) j
           + (if j = nat max_retries then 0 else groq_duration e text (groq_calls st + j))"
proof -
  let ?as = "[1..max_retries]"
  let ?R = "dric_attempts e text (sha256_hexdigest e text) ?as st"
  let ?W = "groq_wait st"
  have c: "ask_dric e text max_retries st = ?R"
    using gq_text gq_miss by (simp add: ask_dric_def)
  have lj: "j \<le> length ?as" using gq_j by simp
  have len: "length ?as = nat max_retries" by simp
  have basic: "fst ?R = (if j = nat max_retries then ''NO''
            else case groq_reply e text (groq_calls st + j) of
                   Replied content \<Rightarrow> parse_answer content | Raised exc \<Rightarrow> ''NO'')
       \<and> DRIC_CACHE (snd ?R) = (DRIC_CACHE st)(sha256_hexdigest e text \<mapsto> fst ?R)
       \<and> groq_calls (snd ?R) = groq_calls st + (if j = nat max_retries then j else Suc j)
       \<and> backoffs (trace (snd ?R)) =
           backoffs (trace st) @ map (\<lambda>a. 3 / 2 * of_int a) (take j ?as)"
  proof (cases "j = nat max_retries")
    case True
    then have "j = length ?as \<or> hard_error (groq_reply e text (groq_calls st + j))" by simp
    from dric_attempts_fail [OF lj gq_thr this] True show ?thesis by simp
  next
    case False
    then have nt: "\<not> throttled (groq_reply e text (groq_calls st + j))" using gq_end by simp
    from nt show ?thesis
    proof (cases rule: not_throttledE)
      case (1 content)
      have "j < length ?as" using False gq_j by simp
      from dric_attempts_success [OF this gq_thr 1] False 1 show ?thesis by simp
    next
      case 2
      then have h: "j = length ?as \<or> hard_error (groq_reply e text (groq_calls st + j))" by simp
      from 2 obtain exc where "groq_reply e text (groq_calls st + j) = Raised exc" by (rule hard_errorE)
      with dric_attempts_fail [OF lj gq_thr h] False show ?thesis by simp
    qed
  qed
  obtain rest where ne: "?as = 1 # rest" using gq_max by (simp add: upto_rec1)
  have w: "?R = dric_attempts e text (sha256_hexdigest e text) ?as ?W"
    unfolding ne by (rule dric_attempts_waited [symmetric])
  have pos: "\<forall>a\<in>set ?as. 1 \<le> a" by simp
  have thr: "\<forall>k<j. throttled (groq_reply e text (groq_calls ?W + k))"
    using gq_thr by (simp add: groq_wait_fields)
  have ending: "j = length ?as \<or> \<not> throttled (groq_reply e text (groq_calls ?W + j))"
    using gq_end by (simp add: groq_wait_fields)
  note T = dric_attempts_timeline [where digest = "sha256_hexdigest e text",
      OF groq_ready_after_wait gq_dur pos lj thr ending, unfolded groq_wait_fields len, folded w]
  have b: "3 / 2 * rat_of_int (?as ! i) = 3 / 2 * of_nat (Suc i)" if "i < j" for i
  proof -
    have "i < nat max_retries" using that gq_j by simp
    then have "?as ! i = int (Suc i)" by simp
    then show ?thesis by simp
  qed
  have s: "sent_at (clock ?W) (\<lambda>i. groq_duration e text (groq_calls st + i))
             (\<lambda>i. 3 / 2 * rat_of_int (?as ! i)) j =
           sent_at (clock ?W) (\<lambda>k. groq_duration e text (groq_calls st + k)) (\<lambda>k. 3 / 2 * of_nat (Suc k)) j"
    by (rule sent_at_cong) (simp_all only: b)
  have r: "retry_events (Groq_request (PROMPT_TEMPLATE text)) (clock ?W)
             (\<lambda>i. groq_duration e text (groq_calls st + i))
             (\<lambda>i. 3 / 2 * rat_of_int (?as ! i)) j =
           retry_events (Groq_request (PROMPT_TEMPLATE text)) (clock ?W)
             (\<lambda>k. groq_duration e text (groq_calls st + k)) (\<lambda>k. 3 / 2 * of_nat (Suc k)) j"
    by (rule retry_events_cong) (simp_all only: b)
  show "fst (ask_dric e text max_retries st) =
           (if j = nat max_retries then ''NO''
            else case groq_reply e text (groq_calls st + j) of
                   Replied content \<Rightarrow> parse_answer content | Raised exc \<Rightarrow> ''NO'')"
    unfolding c using basic by blast
  show "DRIC_CACHE (snd (ask_dric e text max_retries st)) (sha256_hexdigest e text) =
           Some (fst (ask_dric e text max_retries st))"
    unfolding c using basic by simp
  show "groq_calls (snd (ask_dric e text max_retries st)) =
           groq_calls st + (if j = nat max_retries then j else Suc j)"
    unfolding c using basic by blast
  show "backoffs (trace (snd (ask_dric e text max_retries st))) =
           backoffs (trace st) @ map (\<lambda>attempt. 3 / 2 * of_int attempt) [1..int j]"
    unfolding c using basic by (simp add: take_upto [OF gq_j])
  show "trace (snd (ask_dric e text max_retries st)) =
           trace (groq_wait st)
           @ retry_events (Groq_request (PROMPT_TEMPLATE text))
               (clock (groq_wait st)) (\<lambda>k. groq_duration e text (groq_calls st + k))
               (\<lambda>k. 3 / 2 * of_nat (Suc k)) j
           @ (if j = nat max_retries then []
              else [Groq_request (PROMPT_TEMPLATE text)
                      (sent_at (clock (groq_wait st)) (\<lambda>k. groq_duration e text (groq_calls st + k))
                         (\<lambda>k. 3 / 2 * of_nat (Suc k)) j)])"
    unfolding c using T [unfolded s r] by blast
  show "clock (snd (ask_dric e text max_retries st)) =
           sent_at (clock (groq_wait st)) (\<lambda>k. groq_duration e text (groq_calls st + k))
             (\<lambda>k. 3 / 2 * of_nat (Suc k)) j
           + (if j = nat max_retries then 0 else groq_duration e text (groq_calls st + j))"
    unfolding c using T [unfolded s r] by blast
qed


lemma flaky_replies:
  "throttled (fc_reply flaky_services url 0)"
  "throttled (fc_reply flaky_services url (Suc 0))"
  "fc_reply flaky_services url (Suc (Suc 0)) = Replied (Fc_dict (Some ''Funded by DRIC.'') None)"
  by (simp_all add: flaky_services_def fc_reply_def throttled_def is_throttle_def
      lower_def lower_char_def)

lemma services_durations:
  "fc_duration flaky_services url k = 1 / 2"
  "groq_duration throttling_services text k = 1 / 4"
  by (simp_all add: fc_duration_def groq_duration_def flaky_services_def throttling_services_def
      services_def)

lemma initial_ready:
  "firecrawl_wait initial_state = initial_state"
  "groq_wait initial_state = initial_state"
  by (simp_all add: firecrawl_wait_def groq_wait_def initial_fields)

lemma wait_for_page: "\<not> endswith (lower ''http://a.org/x'') ''.pdf''"
  by (simp add: endswith_def lower_def lower_char_def)

text \<open>
  Claim C4. Take a cache miss of either wrapper, with at least one attempt allowed and
  service calls that take no negative time, in which the first \<open>j\<close> attempts meet a
  throttling error and then either the attempts are used up (\<open>j = max_retries\<close>) or the next
  attempt meets something else: a reply or another error. Counted from the wrapper's wait for
  its minimum interval, the run is exactly this: request, backoff of attempt number times the
  base (2 s for the fetcher, 1.5 s for the classifier), request, backoff, ..., each request
  sent when the earlier calls and backoffs have elapsed, and one last request unless the
  attempts are used up; nothing else is sent or slept, and the clock ends at the sum of these
  durations. The wrapper stores what it returns in its cache: the parsed reply if the last
  attempt was answered, and otherwise the failure value, the empty string under the URL
  or "NO" under the digest.
\<close>

theorem retry_backoff:
  assumes fc_miss: "ARTICLE_CACHE st url = None"
    and fc_max: "0 < max_retries"
    and fc_dur: "\<forall>k. 0 \<le> fc_duration e url k"
    and fc_j: "j \<le> nat max_retries"
    and fc_thr: "\<forall>k<j. throttled (fc_reply e url (fc_calls st + k))"
    and fc_end: "j = nat max_retries \<or> \<not> throttled (fc_reply e url (fc_calls st + j))"
    and gq_text: "text \<noteq> []"
    and gq_miss: "DRIC_CACHE st' (sha256_hexdigest e' text) = None"
    and gq_max: "0 < max_retries'"
    and gq_dur: "\<forall>k. 0 \<le> groq_duration e' text k"
    and gq_i: "i \<le> nat max_retries'"
    and gq_thr: "\<forall>k<i. throttled (groq_reply e' text (groq_calls st' + k))"
    and gq_end: "i = nat max_retries' \<or> \<not> throttled (groq_reply e' text (groq_calls st' + i))"
  shows "fst (crawl_article e url max_retries st) =
           (if j = nat max_retries then []
            else case fc_reply e url (fc_calls st + j) of
                   Replied result \<Rightarrow> fc_text result | Raised exc \<Rightarrow> [])
       \<and> ARTICLE_CACHE (snd (crawl_article e url max_retries st)) url =
           Some (fst (crawl_article e url max_retries st))
       \<and> fc_calls (snd (crawl_article e url max_retries st)) =
           fc_calls st + (if j = nat max_retries then j else Suc j)
       \<and> backoffs (trace (snd (crawl_article e url max_retries st))) =
           backoffs (trace st) @ map (\<lambda>attempt. 2 * of_int attempt) [1..int j]
       \<and> trace (snd (crawl_article e url max_retries st)) =
           trace (firecrawl_wait st)
           @ retry_events (Fc_request url (\<not> endswith (lower url) ''.pdf''))
               (clock (firecrawl_wait st)) (\<lambda>k. fc_duration e url (fc_calls st + k))
               (\<lambda>k. 2 * of_nat (Suc k)) j
           @ (if j = nat max_retries then []
              else [Fc_request url (\<not> endswith (lower url) ''.pdf'')
                      (sent_at (clock (firecrawl_wait st)) (\<lambda>k. fc_duration e url (fc_calls st + k))
                         (\<lambda>k. 2 * of_nat (Suc k)) j)])
       \<and> clock (snd (crawl_article e url max_retries st)) =
           sent_at (clock (firecrawl_wait st)) (\<lambda>k. fc_duration e url (fc_calls st + k))
             (\<lambda>k. 2 * of_nat (Suc k)) j
           + (if j = nat max_retries then 0 else fc_duration e url (fc_calls st + j))
       \<and> fst (ask_dric e' text max_retries' st') =
           (if i = nat max_retries' then ''NO''
            else case groq_reply e' text (groq_calls st' + i) of
                   Replied content \<Rightarrow> parse_answer content | Raised exc \<Rightarrow> ''NO'')
       \<and> DRIC_CACHE (snd (ask_dric e' text max_retries' st')) (sha256_hexdigest e' text) =
           Some (fst (ask_dric e' text max_retries' st'))
       \<and> groq_calls (snd (ask_dric e' text max_retries' st')) =
           groq_calls st' + (if i = nat max_retries' then i else Suc i)
       \<and> backoffs (trace (snd (ask_dric e' text max_retries' st'))) =
           backoffs (trace st') @ map (\<lambda>attempt. 3 / 2 * of_int attempt) [1..int i]
       \<and> trace (snd (ask_dric e' text max_retries' st')) =
           trace (groq_wait st')
           @ retry_events (Groq_request (PROMPT_TEMPLATE text))
               (clock (groq_wait st')) (\<lambda>k. groq_duration e' text (groq_calls st' + k))
               (\<lambda>k. 3 / 2 * of_nat (Suc k)) i
           @ (if i = nat max_retries' then []
              else [Groq_request (PROMPT_TEMPLATE text)
                      (sent_at (clock (groq_wait st')) (\<lambda>k. groq_duration e' text (groq_calls st' + k))
                         (\<lambda>k. 3 / 2 * of_nat (Suc k)) i)])
       \<and> clock (snd (ask_dric e' text max_retries' st')) =
           sent_at (clock (groq_wait st')) (\<lambda>k. groq_duration e' text (groq_calls st' + k))
             (\<lambda>k. 3 / 2 * of_nat (Suc k)) i
           + (if i = nat max_retries' then 0 else groq_duration e' text (groq_calls st' + i))"
  by (intro conjI crawl_article_retry [OF fc_miss fc_max fc_dur fc_j fc_thr fc_end]
      ask_dric_retry [OF gq_text gq_miss gq_max gq_dur gq_i gq_thr gq_end])

theorem retry_backoff_witness:
  "ARTICLE_CACHE initial_state ''http://a.org/x'' = None
   \<and> (0::int) < 3
   \<and> (\<forall>k. 0 \<le> fc_duration flaky_services ''http://a.org/x'' k)
   \<and> (2::nat) \<le> nat 3
   \<and> throttled (fc_reply flaky_services ''http://a.org/x'' (fc_calls initial_state + 0))
   \<and> throttled (fc_reply flaky_services ''http://a.org/x'' (fc_calls initial_state + 1))
   \<and> \<not> throttled (fc_reply flaky_services ''http://a.org/x'' (fc_calls initial_state + 2))
   \<and> ''some text'' \<noteq> []
   \<and> DRIC_CACHE initial_state (sha256_hexdigest throttling_services ''some text'') = None
   \<and> (0::int) < 4
   \<and> (\<forall>k. 0 \<le> groq_duration throttling_services ''some text'' k)
   \<and> (4::nat) \<le> nat 4
   \<and> throttled (groq_reply throttling_services ''some text'' (groq_calls initial_state + 0))
   \<and> throttled (groq_reply throttling_services ''some text'' (groq_calls initial_state + 1))
   \<and> throttled (groq_reply throttling_services ''some text'' (groq_calls initial_state + 2))
   \<and> throttled (groq_reply throttling_services ''some text'' (groq_calls initial_state + 3))
   \<and> fst (crawl_article flaky_services ''http://a.org/x'' 3 initial_state) = ''Funded by DRIC.''
   \<and> ARTICLE_CACHE (snd (crawl_article flaky_services ''http://a.org/x'' 3 initial_state))
        ''http://a.org/x'' = Some ''Funded by DRIC.''
   \<and> fc_calls (snd (crawl_article flaky_services ''http://a.org/x'' 3 initial_state)) = 3
   \<and> trace (snd (crawl_article flaky_services ''http://a.org/x'' 3 initial_state)) =
        [Fc_request ''http://a.org/x'' True 0, Backoff 2,
         Fc_request ''http://a.org/x'' True (5 / 2), Backoff 4,
         Fc_request ''http://a.org/x'' True 7]
   \<and> clock (snd (crawl_article flaky_services ''http://a.org/x'' 3 initial_state)) = 15 / 2
   \<and> fst (ask_dric throttling_services ''some text'' 4 initial_state) = ''NO''
   \<and> DRIC_CACHE (snd (ask_dric throttling_services ''some text'' 4 initial_state)) ''some text'' =
        Some ''NO''
   \<and> groq_calls (snd (ask_dric throttling_services ''some text'' 4 initial_state)) = 4
   \<and> trace (snd (ask_dric throttling_services ''some text'' 4 initial_state)) =
        [Groq_request (PROMPT_TEMPLATE ''some text'') 0, Backoff (3 / 2),
         Groq_request (PROMPT_TEMPLATE ''some text'') (7 / 4), Backoff 3,
         Groq_request (PROMPT_TEMPLATE ''some text'') 5, Backoff (9 / 2),
         Groq_request (PROMPT_TEMPLATE ''some text'') (39 / 4), Backoff 6]
   \<and> clock (snd (ask_dric throttling_services ''some text'' 4 initial_state)) = 16"
proof -
  let ?F = flaky_services
  let ?E = throttling_services
  let ?U = "''http://a.org/x''"
  let ?T = "''some text''"
  have h1: "ARTICLE_CACHE initial_state ?U = None" by (simp add: initial_fields)
  have h2: "(0::int) < 3" by simp
  have h3: "\<forall>k. 0 \<le> fc_duration ?F ?U k" by (simp add: services_durations)
  have h4: "(2::nat) \<le> nat 3" by simp
  have t0: "throttled (fc_reply ?F ?U (fc_calls initial_state + 0))"
    by (simp add: initial_fields flaky_replies)
  have t1: "throttled (fc_reply ?F ?U (fc_calls initial_state + 1))"
    by (simp add: initial_fields flaky_replies)
  have r2: "fc_reply ?F ?U (fc_calls initial_state + 2) = Replied (Fc_dict (Some ''Funded by DRIC.'') None)"
    by (simp add: initial_fields flaky_replies)
  have t2: "\<not> throttled (fc_reply ?F ?U (fc_calls initial_state + 2))"
    unfolding r2 by (simp add: throttled_def)
  have h5: "\<forall>k<2. throttled (fc_reply ?F ?U (fc_calls initial_state + k))"
  proof (intro allI impI)
    fix k :: nat assume "k < 2"
    then have "k = 0 \<or> k = 1" by auto
    then show "throttled (fc_reply ?F ?U (fc_calls initial_state + k))" using t0 t1 by auto
  qed
  have h6: "2 = nat 3 \<or> \<not> throttled (fc_reply ?F ?U (fc_calls initial_state + 2))"
    using t2 by simp
  have g1: "?T \<noteq> []" by simp
  have g2: "DRIC_CACHE initial_state (sha256_hexdigest ?E ?T) = None" by (simp add: initial_fields)
  have g3: "(0::int) < 4" by simp
  have g4: "\<forall>k. 0 \<le> groq_duration ?E ?T k" by (simp add: services_durations)
  have g5: "(4::nat) \<le> nat 4" by simp
  have g6: "\<forall>k<4. throttled (groq_reply ?E ?T (groq_calls initial_state + k))"
    by (simp add: throttling_replies)
  have g7: "4 = nat 4 \<or> \<not> throttled (groq_reply ?E ?T (groq_calls initial_state + 4))" by simp
  note R = retry_backoff [OF h1 h2 h3 h4 h5 h6 g1 g2 g3 g4 g5 g6 g7]
  have b1: "fst (crawl_article ?F ?U 3 initial_state) = ''Funded by DRIC.''"
    using R r2 by (simp add: fc_text_def truthy_def)
  have b2: "ARTICLE_CACHE (snd (crawl_article ?F ?U 3 initial_state)) ?U = Some ''Funded by DRIC.''"
    using R b1 by simp
  have b3: "fc_calls (snd (crawl_article ?F ?U 3 initial_state)) = 3"
    using R by (simp add: initial_fields)
  have b4: "trace (snd (crawl_article ?F ?U 3 initial_state)) =
        [Fc_request ?U True 0, Backoff 2, Fc_request ?U True (5 / 2), Backoff 4, Fc_request ?U True 7]"
    using R wait_for_page
    by (simp add: initial_ready initial_fields services_durations retry_events_def sent_at_def
        numeral_2_eq_2)
  have b5: "clock (snd (crawl_article ?F ?U 3 initial_state)) = 15 / 2"
    using R by (simp add: initial_ready initial_fields services_durations sent_at_def numeral_2_eq_2)
  have b6: "fst (ask_dric ?E ?T 4 initial_state) = ''NO''" using R by simp
  have b7: "DRIC_CACHE (snd (ask_dric ?E ?T 4 initial_state)) ?T = Some ''NO''"
    using R b6 by (simp add: services_digest)
  have b8: "groq_calls (snd (ask_dric ?E ?T 4 initial_state)) = 4"
    using R by (simp add: initial_fields)
  have b9: "trace (snd (ask_dric ?E ?T 4 initial_state)) =
        [Groq_request (PROMPT_TEMPLATE ?T) 0, Backoff (3 / 2),
         Groq_request (PROMPT_TEMPLATE ?T) (7 / 4), Backoff 3,
         Groq_request (PROMPT_TEMPLATE ?T) 5, Backoff (9 / 2),
         Groq_request (PROMPT_TEMPLATE ?T) (39 / 4), Backoff 6]"
    using R by (simp add: initial_ready initial_fields services_durations retry_events_def
        sent_at_def eval_nat_numeral)
  have b10: "clock (snd (ask_dric ?E ?T 4 initial_state)) = 16"
    using R by (simp add: initial_ready initial_fields services_durations sent_at_def
        eval_nat_numeral)
  show ?thesis
    by (intro conjI h1 h2 h3 h4 t0 t1 t2 g1 g2 g3 g4 g5 b1 b2 b3 b4 b5 b6 b7 b8 b9 b10
        throttling_replies)
qed

lemma crawl_article_fails_once:
  assumes miss: "ARTICLE_CACHE st url = None"
    and n: "0 < max_retries"
    and err: "hard_error (fc_reply e url (fc_calls st))"
  shows "fst (crawl_article e url max_retries st) = []
       \<and> ARTICLE_CACHE (snd (crawl_article e url max_retries st)) url = Some []
       \<and> fc_calls (snd (crawl_article e url max_retries st)) = Suc (fc_calls st)"
proof -
  have c: "crawl_article e url max_retries st = crawl_attempts e url [1..max_retries] st"
    using miss by (simp add: crawl_article_def)
  have l: "0 \<le> length [1..max_retries]" by simp
  have t: "\<forall>k<0. throttled (fc_reply e url (fc_calls st + k))" by simp
  have h: "0 = length [1..max_retries] \<or> hard_error (fc_reply e url (fc_calls st + 0))"
    using err by simp
  show ?thesis using crawl_attempts_fail [OF l t h] n unfolding c by simp
qed

lemma ask_dric_fails_once:
  assumes nonempty: "text \<noteq> []"
    and miss: "DRIC_CACHE st (sha256_hexdigest e text) = None"
    and n: "0 < max_retries"
    and err: "hard_error (groq_reply e text (groq_calls st))"
  shows "fst (ask_dric e text max_retries st) = ''NO''
       \<and> DRIC_CACHE (snd (ask_dric e text max_retries st)) (sha256_hexdigest e text) = Some ''NO''
       \<and> groq_calls (snd (ask_dric e text max_retries st)) = Suc (groq_calls st)"
proof -
  have c: "ask_dric e text max_retries st =
           dric_attempts e text (sha256_hexdigest e text) [1..max_retries] st"
    using nonempty miss by (simp add: ask_dric_def)
  have l: "0 \<le> length [1..max_retries]" by simp
  have t: "\<forall>k<0. throttled (groq_reply e text (groq_calls st + k))" by simp
  have h: "0 = length [1..max_retries] \<or> hard_error (groq_reply e text (groq_calls st + 0))"
    using err by simp
  show ?thesis using dric_attempts_fail [OF l t h] n unfolding c by simp
qed

text \<open>
  Claim C10. When the first attempt of a cache miss meets an error that is not a throttling
  error, the wrapper makes that one call only and stores the failure value: the empty string
  under the URL, "NO" under the digest of the text. The entry survives whatever rows the run
  processes afterwards, and a later call with the same URL, or with the same text, returns
  the stored failure and leaves the state, and with it the count of service calls, as it is.
\<close>

theorem failure_cached_for_run:
  assumes fc_miss: "ARTICLE_CACHE st url = None"
    and fc_n: "0 < max_retries"
    and fc_err: "hard_error (fc_reply e url (fc_calls st))"
    and gq_text: "text \<noteq> []"
    and gq_miss: "DRIC_CACHE st' (sha256_hexdigest e text) = None"
    and gq_n: "0 < max_retries'"
    and gq_err: "hard_error (groq_reply e text (groq_calls st'))"
  shows "fst (crawl_article e url max_retries st) = []
       \<and> fc_calls (snd (crawl_article e url max_retries st)) = Suc (fc_calls st)
       \<and> crawl_article e url n (snd (process_rows e rows (snd (crawl_article e url max_retries st)))) =
           ([], snd (process_rows e rows (snd (crawl_article e url max_retries st))))
       \<and> fst (ask_dric e text max_retries' st') = ''NO''
       \<and> groq_calls (snd (ask_dric e text max_retries' st')) = Suc (groq_calls st')
       \<and> ask_dric e text n' (snd (process_rows e rows' (snd (ask_dric e text max_retries' st')))) =
           (''NO'', snd (process_rows e rows' (snd (ask_dric e text max_retries' st'))))"
proof -
  note C = crawl_article_fails_once [OF fc_miss fc_n fc_err]
  note A = ask_dric_fails_once [OF gq_text gq_miss gq_n gq_err]
  let ?S = "snd (crawl_article e url max_retries st)"
  let ?T = "snd (ask_dric e text max_retries' st')"
  have "ARTICLE_CACHE (snd (process_rows e rows ?S)) url = Some []"
    using process_rows_keeps [of ?S url "[]" e rows] C by simp
  then have c3: "crawl_article e url n (snd (process_rows e rows ?S)) = ([], snd (process_rows e rows ?S))"
    by (rule crawl_article_hit)
  have "DRIC_CACHE (snd (process_rows e rows' ?T)) (sha256_hexdigest e text) = Some ''NO''"
    using process_rows_keeps [of ?T _ _ e rows' "sha256_hexdigest e text" "''NO''"] A by simp
  then have a3: "ask_dric e text n' (snd (process_rows e rows' ?T)) = (''NO'', snd (process_rows e rows' ?T))"
    using gq_text by (intro ask_dric_hit)
  show ?thesis using C A c3 a3 by simp
qed

theorem failure_cached_for_run_witness:
  "ARTICLE_CACHE initial_state ''http://a.org/x'' = None
   \<and> (0::int) < 3
   \<and> hard_error (fc_reply failing_services ''http://a.org/x'' (fc_calls initial_state))
   \<and> ''some text'' \<noteq> []
   \<and> DRIC_CACHE initial_state (sha256_hexdigest failing_services ''some text'') = None
   \<and> (0::int) < 4
   \<and> hard_error (groq_reply failing_services ''some text'' (groq_calls initial_state))
   \<and> fc_calls (snd (crawl_article failing_services ''http://a.org/x'' 3 initial_state)) = 1
   \<and> crawl_article failing_services ''http://a.org/x'' 3
        (snd (crawl_article failing_services ''http://a.org/x'' 3 initial_state)) =
        ([], snd (crawl_article failing_services ''http://a.org/x'' 3 initial_state))
   \<and> groq_calls (snd (ask_dric failing_services ''some text'' 4 initial_state)) = 1
   \<and> ask_dric failing_services ''some text'' 4
        (snd (ask_dric failing_services ''some text'' 4 initial_state)) =
        (''NO'', snd (ask_dric failing_services ''some text'' 4 initial_state))"
proof -
  let ?E = failing_services
  have h1: "ARTICLE_CACHE initial_state ''http://a.org/x'' = None" by (simp add: initial_fields)
  have h2: "(0::int) < 3" by simp
  have h3: "hard_error (fc_reply ?E ''http://a.org/x'' (fc_calls initial_state))"
    by (rule failing_replies)
  have h4: "''some text'' \<noteq> []" by simp
  have h5: "DRIC_CACHE initial_state (sha256_hexdigest ?E ''some text'') = None"
    by (simp add: initial_fields)
  have h6: "(0::int) < 4" by simp
  have h7: "hard_error (groq_reply ?E ''some text'' (groq_calls initial_state))"
    by (rule failing_replies)
  note R = failure_cached_for_run [OF h1 h2 h3 h4 h5 h6 h7, of 3 "[]" 4 "[]"]
  have b1: "fc_calls (snd (crawl_article ?E ''http://a.org/x'' 3 initial_state)) = 1"
    using R by (simp add: initial_fields)
  have b2: "crawl_article ?E ''http://a.org/x'' 3 (snd (crawl_article ?E ''http://a.org/x'' 3 initial_state)) =
        ([], snd (crawl_article ?E ''http://a.org/x'' 3 initial_state))"
    using R by simp
  have b3: "groq_calls (snd (ask_dric ?E ''some text'' 4 initial_state)) = 1"
    using R by (simp add: initial_fields)
  have b4: "ask_dric ?E ''some text'' 4 (snd (ask_dric ?E ''some text'' 4 initial_state)) =
        (''NO'', snd (ask_dric ?E ''some text'' 4 initial_state))"
    using R by simp
  show ?thesis by (intro conjI h1 h2 h3 h4 h5 h6 h7 b1 b2 b3 b4)
qed

text \<open>
  Claim C3 fails on the code. \<open>_crawl_article\<close> declares \<open>_LAST_FIRECRAWL_CALL\<close> global and
  reads it, but never assigns it: whatever the call does, the timestamp is what it was, so
  from its initial \<open>None\<close> it stays \<open>None\<close> and no call ever waits. Two fetches of different
  URLs, each answered in half a second, send their requests at 0 s and 0.5 s, closer than the
  2 s minimum. The classifier does record its call time.
\<close>

theorem crawl_calls_not_spaced:
  "LAST_FIRECRAWL_CALL (snd (crawl_article e url n st)) = LAST_FIRECRAWL_CALL st
   \<and> fc_request_times (trace (snd (crawl_article answering_services ''http://b.org/y'' 3
          (snd (crawl_article answering_services ''http://a.org/x'' 3 initial_state))))) = [0, 1 / 2]
   \<and> LAST_FIRECRAWL_CALL (snd (crawl_article answering_services ''http://b.org/y'' 3
          (snd (crawl_article answering_services ''http://a.org/x'' 3 initial_state)))) = None
   \<and> LAST_GROQ_CALL (snd (ask_dric answering_services ''Funded by DRIC.'' 4 initial_state)) = Some 0"
proof (intro conjI)
  show "LAST_FIRECRAWL_CALL (snd (crawl_article e url n st)) = LAST_FIRECRAWL_CALL st"
    using crawl_article_keeps [of st url "[]" e url n] by simp
  have a: "crawl_article answering_services ''http://a.org/x'' 3 initial_state =
      (''Funded by DRIC.'',
       initial_state\<lparr>clock := 1 / 2, fc_calls := 1,
         trace := [Fc_request ''http://a.org/x'' True 0],
         ARTICLE_CACHE := [''http://a.org/x'' \<mapsto> ''Funded by DRIC.'']\<rparr>)"
    by (simp add: crawl_article_def initial_state_def firecrawl_wait_def firecrawl_request_def
        answering_services_def services_def fc_text_def truthy_def Let_def upto_rec1
        endswith_def lower_def lower_char_def)
  have b: "crawl_article answering_services ''http://b.org/y'' 3
       (initial_state\<lparr>clock := 1 / 2, fc_calls := 1,
         trace := [Fc_request ''http://a.org/x'' True 0],
         ARTICLE_CACHE := [''http://a.org/x'' \<mapsto> ''Funded by DRIC.'']\<rparr>) =
      (''Funded by DRIC.'',
       initial_state\<lparr>clock := 1, fc_calls := 2,
         trace := [Fc_request ''http://a.org/x'' True 0, Fc_request ''http://b.org/y'' True (1 / 2)],
         ARTICLE_CACHE := [''http://a.org/x'' \<mapsto> ''Funded by DRIC.'',
                           ''http://b.org/y'' \<mapsto> ''Funded by DRIC.'']\<rparr>)"
    by (simp add: crawl_article_def initial_state_def firecrawl_wait_def firecrawl_request_def
        answering_services_def services_def fc_text_def truthy_def Let_def upto_rec1
        endswith_def lower_def lower_char_def)
  show "fc_request_times (trace (snd (crawl_article answering_services ''http://b.org/y'' 3
          (snd (crawl_article answering_services ''http://a.org/x'' 3 initial_state))))) = [0, 1 / 2]"
    unfolding a snd_conv b by simp
  show "LAST_FIRECRAWL_CALL (snd (crawl_article answering_services ''http://b.org/y'' 3
          (snd (crawl_article answering_services ''http://a.org/x'' 3 initial_state)))) = None"
    unfolding a snd_conv b by (simp add: initial_state_def)
  show "LAST_GROQ_CALL (snd (ask_dric answering_services ''Funded by DRIC.'' 4 initial_state)) = Some 0"
    by (simp add: ask_dric_def initial_state_def groq_wait_def groq_request_def
        answering_services_def services_def Let_def upto_rec1)
qed

lemma parse_answer_yes: "parse_answer (Some '' yes, it does'') = ''YES''"
  by (simp add: parse_answer_def strip_def isspace_def upper_def upper_char_def)

lemma crawl_answering:
  "ARTICLE_CACHE st url = None \<Longrightarrow>
   fst (crawl_article answering_services url 3 st) = ''Funded by DRIC.''"
proof -
  assume miss: "ARTICLE_CACHE st url = None"
  have l: "0 < length [1..3::int]" by (simp add: upto_rec1)
  have t: "\<forall>k<0. throttled (fc_reply answering_services url (fc_calls st + k))" by simp
  have r: "fc_reply answering_services url (fc_calls st + 0) =
           Replied (Fc_dict (Some ''Funded by DRIC.'') None)"
    by (rule answering_replies)
  show ?thesis
    using crawl_attempts_success [OF l t r] miss
    by (simp add: crawl_article_def fc_text_def truthy_def)
qed

lemma ask_answering:
  assumes "text \<noteq> []" and "DRIC_CACHE st (sha256_hexdigest answering_services text) = None"
  shows "fst (ask_dric answering_services text 4 st) = ''YES''"
proof -
  have l: "0 < length [1..4::int]" by (simp add: upto_rec1)
  have t: "\<forall>k<0. throttled (groq_reply answering_services text (groq_calls st + k))" by simp
  have r: "groq_reply answering_services text (groq_calls st + 0) = Replied (Some '' yes, it does'')"
    by (rule answering_replies)
  show ?thesis
    using dric_attempts_success [OF l t r] assms
    by (simp add: ask_dric_def parse_answer_yes)
qed

text \<open>
  Claim C6. For the empty text \<open>_ask_dric\<close> returns "NO" and leaves the state as it is: the
  model is not called. For a text that is not empty and not in the cache, if the attempts
  before the first reply (none, in the usual case) were throttled, the answer is "YES" exactly
  when the reply's content, stripped and upper-cased, starts with "YES", and "NO" for every
  other content, a missing one included. The classification cache starts empty and holds
  only these two labels, and with such a cache every call returns one of them.
\<close>

theorem ask_dric_answers:
  "ask_dric e [] n st = (''NO'', st)
   \<and> (text \<noteq> [] \<and> DRIC_CACHE st (sha256_hexdigest e text) = None \<and> j < nat n
        \<and> (\<forall>k<j. throttled (groq_reply e text (groq_calls st + k)))
        \<and> groq_reply e text (groq_calls st + j) = Replied content \<longrightarrow>
        fst (ask_dric e text n st) =
          (if startswith (upper (strip (case content of None \<Rightarrow> [] | Some c \<Rightarrow> c))) ''YES''
           then ''YES'' else ''NO'')
        \<and> groq_calls (snd (ask_dric e text n st)) = groq_calls st + Suc j)
   \<and> (labels_only st' \<longrightarrow>
        (fst (ask_dric e' text' n' st') = ''YES'' \<or> fst (ask_dric e' text' n' st') = ''NO'')
        \<and> labels_only (snd (ask_dric e' text' n' st')))
   \<and> labels_only initial_state"
proof (intro conjI impI)
  show "ask_dric e [] n st = (''NO'', st)" by (simp add: ask_dric_def)
  show "labels_only initial_state" by (simp add: labels_only_def initial_state_def)
  show "fst (ask_dric e' text' n' st') = ''YES'' \<or> fst (ask_dric e' text' n' st') = ''NO''"
    if "labels_only st'" using ask_dric_labels [OF that] by blast
  show "labels_only (snd (ask_dric e' text' n' st'))"
    if "labels_only st'" using ask_dric_labels [OF that] by blast
  assume h: "text \<noteq> [] \<and> DRIC_CACHE st (sha256_hexdigest e text) = None \<and> j < nat n
        \<and> (\<forall>k<j. throttled (groq_reply e text (groq_calls st + k)))
        \<and> groq_reply e text (groq_calls st + j) = Replied content"
  have c: "ask_dric e text n st = dric_attempts e text (sha256_hexdigest e text) [1..n] st"
    using h by (simp add: ask_dric_def)
  have l: "j < length [1..n]" using h by simp
  have t: "\<forall>k<j. throttled (groq_reply e text (groq_calls st + k))" using h by blast
  have r: "groq_reply e text (groq_calls st + j) = Replied content" using h by blast
  note S = dric_attempts_success [OF l t r, of "sha256_hexdigest e text"]
  show "fst (ask_dric e text n st) =
          (if startswith (upper (strip (case content of None \<Rightarrow> [] | Some c \<Rightarrow> c))) ''YES''
           then ''YES'' else ''NO'')"
    using S unfolding c by (simp add: parse_answer_def Let_def)
  show "groq_calls (snd (ask_dric e text n st)) = groq_calls st + Suc j"
    using S unfolding c by simp
qed

theorem ask_dric_answers_witness:
  "''Funded by DRIC.'' \<noteq> []
   \<and> DRIC_CACHE initial_state (sha256_hexdigest answering_services ''Funded by DRIC.'') = None
   \<and> (0::nat) < nat 4
   \<and> groq_reply answering_services ''Funded by DRIC.'' (groq_calls initial_state + 0) =
        Replied (Some '' yes, it does'')
   \<and> labels_only initial_state
   \<and> fst (ask_dric answering_services ''Funded by DRIC.'' 4 initial_state) = ''YES''
   \<and> groq_calls (snd (ask_dric answering_services ''Funded by DRIC.'' 4 initial_state)) = 1
   \<and> labels_only (snd (ask_dric answering_services ''Funded by DRIC.'' 4 initial_state))"
proof -
  let ?E = answering_services
  let ?t = "''Funded by DRIC.''"
  have h1: "?t \<noteq> []" by simp
  have h2: "DRIC_CACHE initial_state (sha256_hexdigest ?E ?t) = None" by (simp add: initial_fields)
  have h3: "(0::nat) < nat 4" by simp
  have h4: "\<forall>k<0. throttled (groq_reply ?E ?t (groq_calls initial_state + k))" by simp
  have h5: "groq_reply ?E ?t (groq_calls initial_state + 0) = Replied (Some '' yes, it does'')"
    by (rule answering_replies)
  note R = ask_dric_answers [of ?E 4 initial_state ?t 0 "Some '' yes, it does''" initial_state
      ?E ?t 4]
  have h6: "labels_only initial_state" using R by blast
  have y: "startswith (upper (strip (case Some '' yes, it does'' of None \<Rightarrow> [] | Some c \<Rightarrow> c))) ''YES''"
    by (simp add: strip_def isspace_def upper_def upper_char_def)
  have b1: "fst (ask_dric ?E ?t 4 initial_state) = ''YES''"
    using R h1 h2 h3 h4 h5 y by simp
  have b2: "groq_calls (snd (ask_dric ?E ?t 4 initial_state)) = 1"
    using R h1 h2 h3 h4 h5 by (simp add: initial_fields)
  have b3: "labels_only (snd (ask_dric ?E ?t 4 initial_state))" using R h6 by blast
  show ?thesis by (intro conjI h1 h2 h3 h5 h6 b1 b2 b3)
qed

text \<open>
  Claim C5. A row whose link the resolver cannot resolve is emitted with dric "NF" and the
  state is untouched: neither the fetcher nor the classifier runs. A row whose link resolves
  but whose fetched text is empty is emitted with "NF" in the state the fetcher left: the
  classifier does not run. Otherwise the dric field is what the classifier returns for the
  fetched text.
\<close>

theorem process_row_cases:
  "(extract_article_url e1 (scholar_link row1) = None \<longrightarrow>
      dric (fst (process_row e1 row1 st1)) = ''NF'' \<and> snd (process_row e1 row1 st1) = st1)
   \<and> (extract_article_url e2 (scholar_link row2) = Some url2 \<and> url2 \<noteq> []
        \<and> fst (crawl_article e2 url2 3 st2) = [] \<longrightarrow>
      dric (fst (process_row e2 row2 st2)) = ''NF''
      \<and> snd (process_row e2 row2 st2) = snd (crawl_article e2 url2 3 st2))
   \<and> (extract_article_url e3 (scholar_link row3) = Some url3 \<and> url3 \<noteq> []
        \<and> fst (crawl_article e3 url3 3 st3) \<noteq> [] \<longrightarrow>
      dric (fst (process_row e3 row3 st3)) =
        fst (ask_dric e3 (fst (crawl_article e3 url3 3 st3)) 4 (snd (crawl_article e3 url3 3 st3)))
      \<and> snd (process_row e3 row3 st3) =
        snd (ask_dric e3 (fst (crawl_article e3 url3 3 st3)) 4 (snd (crawl_article e3 url3 3 st3))))"
proof (intro conjI impI)
  assume "extract_article_url e1 (scholar_link row1) = None"
  then show "dric (fst (process_row e1 row1 st1)) = ''NF''" "snd (process_row e1 row1 st1) = st1"
    by (simp_all add: process_row_def emit_def)
next
  assume h: "extract_article_url e2 (scholar_link row2) = Some url2 \<and> url2 \<noteq> []
        \<and> fst (crawl_article e2 url2 3 st2) = []"
  obtain t s where c: "crawl_article e2 url2 3 st2 = (t, s)" by (cases "crawl_article e2 url2 3 st2")
  show "dric (fst (process_row e2 row2 st2)) = ''NF''"
    using h c by (simp add: process_row_def emit_def)
  show "snd (process_row e2 row2 st2) = snd (crawl_article e2 url2 3 st2)"
    using h c by (simp add: process_row_def emit_def)
next
  assume h: "extract_article_url e3 (scholar_link row3) = Some url3 \<and> url3 \<noteq> []
        \<and> fst (crawl_article e3 url3 3 st3) \<noteq> []"
  obtain t s where c: "crawl_article e3 url3 3 st3 = (t, s)" by (cases "crawl_article e3 url3 3 st3")
  obtain a s' where k: "ask_dric e3 t 4 s = (a, s')" by (cases "ask_dric e3 t 4 s")
  show "dric (fst (process_row e3 row3 st3)) =
        fst (ask_dric e3 (fst (crawl_article e3 url3 3 st3)) 4 (snd (crawl_article e3 url3 3 st3)))"
    using h c k by (simp add: process_row_def emit_def)
  show "snd (process_row e3 row3 st3) =
        snd (ask_dric e3 (fst (crawl_article e3 url3 3 st3)) 4 (snd (crawl_article e3 url3 3 st3)))"
    using h c k by (simp add: process_row_def emit_def)
qed

theorem process_row_cases_witness:
  "extract_article_url (answering_services\<lparr>extract_article_url := (\<lambda>link. None)\<rparr>)
      (scholar_link \<lparr>authors = ''A Author'', title = ''T'', year = 2020, scholar_link = ''https://s/c1''\<rparr>) = None
   \<and> extract_article_url failing_services
      (scholar_link \<lparr>authors = ''A Author'', title = ''T'', year = 2020, scholar_link = ''https://s/c1''\<rparr>) =
      Some ''https://s/c1''
   \<and> ''https://s/c1'' \<noteq> []
   \<and> fst (crawl_article failing_services ''https://s/c1'' 3 initial_state) = []
   \<and> extract_article_url answering_services
      (scholar_link \<lparr>authors = ''A Author'', title = ''T'', year = 2020, scholar_link = ''https://s/c1''\<rparr>) =
      Some ''https://s/c1''
   \<and> fst (crawl_article answering_services ''https://s/c1'' 3 initial_state) \<noteq> []
   \<and> process_row (answering_services\<lparr>extract_article_url := (\<lambda>link. None)\<rparr>)
        \<lparr>authors = ''A Author'', title = ''T'', year = 2020, scholar_link = ''https://s/c1''\<rparr> initial_state =
      (\<lparr>out_authors = ''A Author'', out_title = ''T'', out_year = 2020,
        out_scholar_link = ''https://s/c1'', dric = ''NF''\<rparr>, initial_state)
   \<and> dric (fst (process_row failing_services
        \<lparr>authors = ''A Author'', title = ''T'', year = 2020, scholar_link = ''https://s/c1''\<rparr> initial_state)) =
      ''NF''
   \<and> groq_calls (snd (process_row failing_services
        \<lparr>authors = ''A Author'', title = ''T'', year = 2020, scholar_link = ''https://s/c1''\<rparr> initial_state)) = 0
   \<and> dric (fst (process_row answering_services
        \<lparr>authors = ''A Author'', title = ''T'', year = 2020, scholar_link = ''https://s/c1''\<rparr> initial_state)) =
      ''YES''"
proof -
  let ?row = "\<lparr>authors = ''A Author'', title = ''T'', year = 2020, scholar_link = ''https://s/c1''\<rparr>"
  let ?N = "answering_services\<lparr>extract_article_url := (\<lambda>link. None)\<rparr>"
  let ?u = "''https://s/c1''"
  have h1: "extract_article_url ?N (scholar_link ?row) = None" by simp
  have h2: "extract_article_url failing_services (scholar_link ?row) = Some ?u"
    by (simp add: failing_services_def services_def)
  have h3: "?u \<noteq> []" by simp
  have miss: "ARTICLE_CACHE initial_state ?u = None" by (simp add: initial_fields)
  have h4: "fst (crawl_article failing_services ?u 3 initial_state) = []"
    using crawl_article_fails_once [OF miss _ failing_replies(1), of 3] by simp
  have h5: "extract_article_url answering_services (scholar_link ?row) = Some ?u"
    by (simp add: answering_services_def services_def)
  have t: "fst (crawl_article answering_services ?u 3 initial_state) = ''Funded by DRIC.''"
    using miss by (rule crawl_answering)
  then have h6: "fst (crawl_article answering_services ?u 3 initial_state) \<noteq> []" by simp
  note R = process_row_cases [of ?N ?row initial_state failing_services ?row ?u initial_state
      answering_services ?row ?u initial_state]
  have b1: "process_row ?N ?row initial_state =
      (\<lparr>out_authors = ''A Author'', out_title = ''T'', out_year = 2020,
        out_scholar_link = ''https://s/c1'', dric = ''NF''\<rparr>, initial_state)"
    using R h1 by (simp add: process_row_def emit_def)
  have b2: "dric (fst (process_row failing_services ?row initial_state)) = ''NF''"
    using R h2 h3 h4 by blast
  have "snd (process_row failing_services ?row initial_state) =
        snd (crawl_article failing_services ?u 3 initial_state)"
    using R h2 h3 h4 by blast
  then have b3: "groq_calls (snd (process_row failing_services ?row initial_state)) = 0"
    using crawl_attempts_others [of failing_services ?u "[1..3]" initial_state] miss
    by (simp add: crawl_article_def initial_fields)
  have d: "DRIC_CACHE (snd (crawl_article answering_services ?u 3 initial_state))
             (sha256_hexdigest answering_services ''Funded by DRIC.'') = None"
    using crawl_article_keeps [of initial_state ?u "[]" answering_services ?u 3]
    by (simp add: initial_fields)
  have "dric (fst (process_row answering_services ?row initial_state)) =
        fst (ask_dric answering_services (fst (crawl_article answering_services ?u 3 initial_state)) 4
               (snd (crawl_article answering_services ?u 3 initial_state)))"
    using R h5 h3 h6 by blast
  then have b4: "dric (fst (process_row answering_services ?row initial_state)) = ''YES''"
    using ask_answering [OF _ d] by (simp add: t)
  show ?thesis by (intro conjI h1 h2 h3 h4 h5 h6 b1 b2 b3 b4)
qed

end
